theory Spec2Isabelle
  imports
    Main
    "HOL-Library.Sublist"
    "HOL-Library.Char_ord"
    "HOL-Library.List_Lexorder"
    "HOL-Library.Multiset"
    "HOL-Library.AList"
    "HOL-Library.Word"
begin

section \<open>Strings\<close>

text \<open>
  A Go \<open>string\<close> is a byte sequence; it is modelled as a \<open>string\<close> (a list of 8-bit
  characters).  The functions below are the parts of Go's \<open>strings\<close> and \<open>fmt\<close> packages
  that the program calls.
\<close>

fun HasPrefix :: "string \<Rightarrow> string \<Rightarrow> bool" where
  "HasPrefix s [] = True"
| "HasPrefix [] (p # ps) = False"
| "HasPrefix (c # s) (p # ps) = (c = p \<and> HasPrefix s ps)"

fun Contains :: "string \<Rightarrow> string \<Rightarrow> bool" where
  "Contains [] sub = HasPrefix [] sub"
| "Contains (c # s) sub = (HasPrefix (c # s) sub \<or> Contains s sub)"

text \<open>
  \<open>strings.ToUpper\<close> and \<open>strings.TrimSpace\<close> read their argument as UTF-8 and follow the
  Unicode tables of the Go library: \<open>ToUpper\<close> maps every code point to its upper case
  (the dotless i, U+0131, becomes \<open>I\<close>), and \<open>TrimSpace\<close> removes the leading and trailing
  white space of Unicode (the no-break space U+00A0 is one).  Those tables are not part of
  the repository.  On text all of whose bytes are ASCII the two functions are spelled out
  below: the letters \<open>a\<close> to \<open>z\<close> are raised, and the bytes \<open>0x09\<close> to \<open>0x0D\<close> and the space
  are trimmed.  On any other text their results are parameters, the two fields of
  \<open>unicode_tables\<close>.
\<close>

record unicode_tables =
  upper_text :: "string \<Rightarrow> string"
  trim_text :: "string \<Rightarrow> string"

definition is_ascii :: "string \<Rightarrow> bool" where
  "is_ascii s = list_all (\<lambda>c. c < CHR 0x80) s"

definition upper_char :: "char \<Rightarrow> char" where
  "upper_char c =
     (if CHR ''a'' \<le> c \<and> c \<le> CHR ''z'' then char_of (of_char c - (32::nat)) else c)"

definition ToUpper :: "unicode_tables \<Rightarrow> string \<Rightarrow> string" where
  "ToUpper uni s = (if is_ascii s then map upper_char s else upper_text uni s)"

definition is_space :: "char \<Rightarrow> bool" where
  "is_space c = (c = CHR '' '' \<or> (CHR 0x09 \<le> c \<and> c \<le> CHR 0x0D))"

definition TrimSpace :: "unicode_tables \<Rightarrow> string \<Rightarrow> string" where
  "TrimSpace uni s =
     (if is_ascii s then rev (dropWhile is_space (rev (dropWhile is_space s)))
      else trim_text uni s)"

text \<open>
  The examples of this theory are ASCII text, for which the tables are not read;
  \<open>no_tables\<close> stands in for them there.
\<close>

definition no_tables :: unicode_tables where
  "no_tables = \<lparr>upper_text = (\<lambda>s. s), trim_text = (\<lambda>s. s)\<rparr>"

text \<open>\<open>strings.Replace(s, old, new, 1)\<close>: the first occurrence of \<open>old\<close> is replaced.\<close>

fun ReplaceFirst :: "string \<Rightarrow> string \<Rightarrow> string \<Rightarrow> string" where
  "ReplaceFirst [] old new = (if old = [] then new else [])"
| "ReplaceFirst (c # s) old new =
     (if HasPrefix (c # s) old then new @ drop (length old) (c # s)
      else c # ReplaceFirst s old new)"

fun Join :: "string list \<Rightarrow> string \<Rightarrow> string" where
  "Join [] sep = []"
| "Join [x] sep = x"
| "Join (x # y # xs) sep = x @ sep @ Join (y # xs) sep"

text \<open>Decimal rendering of integers, as \<open>%d\<close> prints them.\<close>

definition digit_char :: "nat \<Rightarrow> char" where
  "digit_char d = char_of (48 + d)"

fun show_nat :: "nat \<Rightarrow> string" where
  "show_nat n = (if n < 10 then [digit_char n] else show_nat (n div 10) @ [digit_char (n mod 10)])"

declare show_nat.simps [simp del]

definition show_int :: "int \<Rightarrow> string" where
  "show_int i = (if i < 0 then CHR ''-'' # show_nat (nat (- i)) else show_nat (nat i))"


section \<open>Base-table detection (internal/db/explain.go)\<close>

datatype ExplainNode =
  ExplainNode (NodeType: string) (RelationName: string) (Plans: "ExplainNode list")

text \<open>
  The source database answers the \<open>EXPLAIN\<close> statement; the driver call and the JSON
  decoding of its answer are outside the repository, so the model takes the answer as a
  parameter: the statement fails, its output does not parse, or it is a list of plans
  (each \<open>ExplainPlan\<close> holds one root node).
\<close>

datatype explain_reply =
  ExplainFails
| ExplainUnparsable
| ExplainPlans "ExplainNode list"

datatype db_error =
  NotReadOnly
| ExplainFailed
| ExplainParseFailed
| EmptyExplainOutput
| NoBaseTableDetected
| MultipleBaseTables "string list"

text \<open>
  \<open>extractTables\<close> fills a Go \<open>map[string]bool\<close> used as a set; the model keeps the set
  as a duplicate-free list in order of discovery.
\<close>

fun extractTables :: "ExplainNode \<Rightarrow> string list \<Rightarrow> string list" where
  "extractTables (ExplainNode nt rel plans) tables =
     fold extractTables plans (if rel \<noteq> [] then List.insert rel tables else tables)"

definition has_write_keyword :: "string \<Rightarrow> bool" where
  "has_write_keyword upperQuery =
     (Contains upperQuery ''INSERT'' \<or>
      Contains upperQuery ''UPDATE'' \<or>
      Contains upperQuery ''DELETE'' \<or>
      Contains upperQuery ''DROP'' \<or>
      Contains upperQuery ''CREATE'' \<or>
      Contains upperQuery ''ALTER'')"

text \<open>
  \<open>DetectBaseTable\<close> returns its result together with the list of statements it has
  sent to the database.
\<close>

definition DetectBaseTable ::
  "unicode_tables \<Rightarrow> (string \<Rightarrow> explain_reply) \<Rightarrow> string \<Rightarrow> (db_error + string) \<times> string list" where
  "DetectBaseTable uni run_explain query0 =
     (let query = TrimSpace uni query0;
          upperQuery = ToUpper uni query
      in if has_write_keyword upperQuery then (Inl NotReadOnly, [])
         else
           let explainQuery = ''EXPLAIN (FORMAT JSON) '' @ query in
           (case run_explain explainQuery of
              ExplainFails \<Rightarrow> (Inl ExplainFailed, [explainQuery])
            | ExplainUnparsable \<Rightarrow> (Inl ExplainParseFailed, [explainQuery])
            | ExplainPlans plans \<Rightarrow>
                (case plans of
                   [] \<Rightarrow> (Inl EmptyExplainOutput, [explainQuery])
                 | p # _ \<Rightarrow>
                     (let tables = extractTables p [] in
                      case tables of
                        [] \<Rightarrow> (Inl NoBaseTableDetected, [explainQuery])
                      | [t] \<Rightarrow> (Inr t, [explainQuery])
                      | _ \<Rightarrow> (Inl (MultipleBaseTables tables), [explainQuery])))))"

definition write_keywords :: "string list" where
  "write_keywords = [''INSERT'', ''UPDATE'', ''DELETE'', ''DROP'', ''CREATE'', ''ALTER'']"


section \<open>Facts about the string functions\<close>

lemma HasPrefix_iff: "HasPrefix s p \<longleftrightarrow> (\<exists>post. s = p @ post)"
  by (induction s p rule: HasPrefix.induct) auto

lemma Contains_iff: "Contains s sub \<longleftrightarrow> (\<exists>pre post. s = pre @ sub @ post)"
proof (induction s)
  case Nil
  show ?case by (cases sub) auto
next
  case (Cons c s)
  show ?case
  proof
    assume "Contains (c # s) sub"
    then consider "HasPrefix (c # s) sub" | "Contains s sub" by auto
    then show "\<exists>pre post. c # s = pre @ sub @ post"
    proof cases
      case 1
      then obtain post where "c # s = sub @ post" by (auto simp: HasPrefix_iff)
      then have "c # s = [] @ sub @ post" by simp
      then show ?thesis by blast
    next
      case 2
      then obtain pre post where "s = pre @ sub @ post" using Cons.IH by blast
      then have "c # s = (c # pre) @ sub @ post" by simp
      then show ?thesis by blast
    qed
  next
    assume "\<exists>pre post. c # s = pre @ sub @ post"
    then obtain pre post where eq: "c # s = pre @ sub @ post" by blast
    show "Contains (c # s) sub"
    proof (cases pre)
      case Nil
      with eq have "HasPrefix (c # s) sub" by (auto simp: HasPrefix_iff)
      then show ?thesis by simp
    next
      case (Cons a pre')
      with eq have "s = pre' @ sub @ post" by simp
      then have "Contains s sub" using Cons.IH by blast
      then show ?thesis by simp
    qed
  qed
qed

lemma has_write_keyword_iff:
  "has_write_keyword u \<longleftrightarrow> (\<exists>k \<in> set write_keywords. \<exists>pre post. u = pre @ k @ post)"
  unfolding has_write_keyword_def write_keywords_def Contains_iff by auto


section \<open>Read-only check of the root query\<close>

text \<open>
  C7.  Whenever the trimmed, upper-cased query text has one of INSERT, UPDATE, DELETE,
  DROP, CREATE, ALTER as a substring, \<open>DetectBaseTable\<close> returns the read-only error and
  has sent no statement (so no EXPLAIN) to the database.  Whenever the text has none of
  them, the check is passed: the EXPLAIN statement for the trimmed query is sent, and
  whatever the result is, it is not the read-only error.  This holds for every query
  text, ASCII or not, whatever the Unicode tables make of it.
\<close>

theorem DetectBaseTable_read_only_check:
  "((\<exists>k \<in> set write_keywords. \<exists>pre post. ToUpper uni (TrimSpace uni q) = pre @ k @ post) \<longrightarrow>
      DetectBaseTable uni run_explain q = (Inl NotReadOnly, [])) \<and>
   (\<not> (\<exists>k \<in> set write_keywords. \<exists>pre post. ToUpper uni (TrimSpace uni q) = pre @ k @ post) \<longrightarrow>
      snd (DetectBaseTable uni run_explain q) = [''EXPLAIN (FORMAT JSON) '' @ TrimSpace uni q] \<and>
      fst (DetectBaseTable uni run_explain q) \<noteq> Inl NotReadOnly)"
proof (cases "has_write_keyword (ToUpper uni (TrimSpace uni q))")
  case True
  then show ?thesis
    unfolding has_write_keyword_iff [symmetric] by (simp add: DetectBaseTable_def)
next
  case False
  then show ?thesis
    unfolding has_write_keyword_iff [symmetric]
    by (simp add: DetectBaseTable_def Let_def split: explain_reply.splits list.splits)
qed

theorem DetectBaseTable_read_only_check_witness:
  "DetectBaseTable no_tables (\<lambda>_. ExplainFails) '' delete from users '' = (Inl NotReadOnly, []) \<and>
   snd (DetectBaseTable no_tables (\<lambda>_. ExplainFails) ''SELECT * FROM users WHERE id = 1'') =
     [''EXPLAIN (FORMAT JSON) SELECT * FROM users WHERE id = 1''] \<and>
   fst (DetectBaseTable no_tables (\<lambda>_. ExplainFails) ''SELECT * FROM users WHERE id = 1'') \<noteq>
     Inl NotReadOnly"
proof -
  have a: "has_write_keyword (ToUpper no_tables (TrimSpace no_tables '' delete from users ''))"
    by code_simp
  have b: "\<not> has_write_keyword
             (ToUpper no_tables (TrimSpace no_tables ''SELECT * FROM users WHERE id = 1''))"
    by code_simp
  have t: "TrimSpace no_tables ''SELECT * FROM users WHERE id = 1'' =
             ''SELECT * FROM users WHERE id = 1''"
    by code_simp
  from DetectBaseTable_read_only_check
         [of no_tables "'' delete from users ''" "\<lambda>_. ExplainFails"] a
  have 1: "DetectBaseTable no_tables (\<lambda>_. ExplainFails) '' delete from users '' =
             (Inl NotReadOnly, [])"
    unfolding has_write_keyword_iff by blast
  from DetectBaseTable_read_only_check
         [of no_tables "''SELECT * FROM users WHERE id = 1''" "\<lambda>_. ExplainFails"] b
  have 2: "snd (DetectBaseTable no_tables (\<lambda>_. ExplainFails) ''SELECT * FROM users WHERE id = 1'') =
     [''EXPLAIN (FORMAT JSON) '' @ TrimSpace no_tables ''SELECT * FROM users WHERE id = 1''] \<and>
   fst (DetectBaseTable no_tables (\<lambda>_. ExplainFails) ''SELECT * FROM users WHERE id = 1'') \<noteq>
     Inl NotReadOnly"
    unfolding has_write_keyword_iff by blast
  from 1 2 show ?thesis unfolding t by simp
qed


section \<open>Schema metadata and the foreign-key graph (internal/graph/types.go)\<close>

record ForeignKey =
  ChildTable :: string
  ChildColumn :: string
  ParentTable :: string
  ParentColumn :: string

definition mk_fk :: "string \<Rightarrow> string \<Rightarrow> string \<Rightarrow> string \<Rightarrow> ForeignKey" where
  "mk_fk ct cc pt pc = \<lparr>ChildTable = ct, ChildColumn = cc, ParentTable = pt, ParentColumn = pc\<rparr>"

text \<open>
  The maps of the graph are never changed after construction.  They are kept as
  association lists (read with \<open>map_of\<close>), so that the keys can be enumerated as Go's
  \<open>range\<close> does; reading an absent key gives the empty slice, as in Go.
\<close>

record Graph =
  Parents :: "(string \<times> ForeignKey list) list"
  Children :: "(string \<times> ForeignKey list) list"
  PrimaryKey :: "(string \<times> string list) list"

definition slice_at :: "(string \<times> 'a list) list \<Rightarrow> string \<Rightarrow> 'a list" where
  "slice_at m k = (case map_of m k of None \<Rightarrow> [] | Some xs \<Rightarrow> xs)"

definition GetParents :: "Graph \<Rightarrow> string \<Rightarrow> ForeignKey list" where
  "GetParents g table = slice_at (Parents g) table"

definition GetChildren :: "Graph \<Rightarrow> string \<Rightarrow> ForeignKey list" where
  "GetChildren g table = slice_at (Children g) table"

definition GetPrimaryKeyColumns :: "Graph \<Rightarrow> string \<Rightarrow> string list" where
  "GetPrimaryKeyColumns g table = slice_at (PrimaryKey g) table"

definition GetPrimaryKey :: "Graph \<Rightarrow> string \<Rightarrow> string" where
  "GetPrimaryKey g table =
     (case slice_at (PrimaryKey g) table of [] \<Rightarrow> [] | pk # _ \<Rightarrow> pk)"


section \<open>Column values and fetched rows\<close>

text \<open>
  A column value is a Go \<open>interface{}\<close> filled by the driver: a dynamic type together
  with a value of that type, and two such values are equal (and the same map key) only
  when both agree.  The model has the null marker (\<open>nil\<close>), the three integer types the
  driver delivers (\<open>int16\<close> for \<open>smallint\<close>, \<open>int32\<close> for \<open>integer\<close>, \<open>int64\<close> for
  \<open>bigint\<close>), \<open>string\<close> and \<open>bool\<close>; the driver's other kinds (floating point,
  timestamps, byte slices, nested JSON) are not represented.  \<open>show_val\<close> is
  \<open>fmt.Sprintf("%v", v)\<close>, which prints an integer in decimal whatever its type, and
  \<open>show_vals\<close> is the same verb applied to a slice.
\<close>

datatype val =
  VNull
| VInt16 "16 word"
| VInt32 "32 word"
| VInt64 "64 word"
| VText string
| VBool bool

fun show_val :: "val \<Rightarrow> string" where
  "show_val VNull = ''<nil>''"
| "show_val (VInt16 i) = show_int (sint i)"
| "show_val (VInt32 i) = show_int (sint i)"
| "show_val (VInt64 i) = show_int (sint i)"
| "show_val (VText s) = s"
| "show_val (VBool b) = (if b then ''true'' else ''false'')"

definition show_vals :: "val list \<Rightarrow> string" where
  "show_vals vs = ''['' @ Join (map show_val vs) '' '' @ '']''"

type_synonym row = "string \<rightharpoonup> val"

text \<open>
  A result set (\<open>pgx.Rows\<close>): the field names, then for every row that \<open>Next\<close>
  delivers either its values or \<open>None\<close> when \<open>Values\<close> reports an error, and whether
  \<open>Err\<close> reports an error after the last row.
\<close>

record result_set =
  FieldDescriptions :: "string list"
  Items :: "val list option list"
  Err :: bool

text \<open>
  \<open>MaxRows\<close> and \<open>RowCount\<close> are Go \<open>int\<close>s, taken here with the width they have on
  64-bit platforms: signed 64-bit integers, so that \<open>RowCount++\<close> wraps around and \<open>>\<close>
  compares signed.
\<close>

record TraversalOptions =
  ParentsOnly :: bool
  ChildrenOnly :: bool
  SelectedChildren :: "string list"
  MaxRows :: "64 word"
  Force :: bool
  Verbose :: bool

text \<open>
  The mutable part of \<open>TraversalState\<close>.  The graph and the options are passed
  alongside, since they are only read; the progress tracker only prints.
\<close>

record TraversalState =
  VisitedRows :: "string \<rightharpoonup> val set"
  TableData :: "string \<rightharpoonup> row list"
  RowCount :: "64 word"

definition NewTraversalState :: TraversalState where
  "NewTraversalState = \<lparr>VisitedRows = Map.empty, TableData = Map.empty, RowCount = 0\<rparr>"

definition visited_of :: "TraversalState \<Rightarrow> string \<Rightarrow> val set" where
  "visited_of s table = (case VisitedRows s table of None \<Rightarrow> {} | Some S \<Rightarrow> S)"

definition data_of :: "TraversalState \<Rightarrow> string \<Rightarrow> row list" where
  "data_of s table = (case TableData s table of None \<Rightarrow> [] | Some rs \<Rightarrow> rs)"

datatype extract_error =
  ScanRowFailed
| FieldIndexOutOfRange
| PKMissing string
| PKNull string
| RowLimitExceeded "64 word"
| RowsError
| ColumnInfoFailed string
| ColumnScanFailed
| GetColumnsFailed
| ScanColumnFailed
| RootQueryFailed
| FetchFailed string

fun error_message :: "extract_error \<Rightarrow> string" where
  "error_message ScanRowFailed = ''failed to scan row''"
| "error_message FieldIndexOutOfRange = ''index out of range''"
| "error_message (PKMissing t) = ''primary key value(s) missing in table '' @ t"
| "error_message (PKNull t) = ''primary key value is NULL in table '' @ t"
| "error_message (RowLimitExceeded n) =
     ''row limit exceeded ('' @ show_int (sint n) @ '' rows). Use --force to override''"
| "error_message RowsError = ''rows error''"
| "error_message (ColumnInfoFailed t) = ''failed to get column info for '' @ t"
| "error_message ColumnScanFailed = ''failed to scan column info''"
| "error_message GetColumnsFailed = ''failed to get columns''"
| "error_message ScanColumnFailed = ''failed to scan column''"
| "error_message RootQueryFailed = ''failed to execute root query''"
| "error_message (FetchFailed t) = ''failed to fetch rows from '' @ t"


section \<open>The row processor (processRows, processRowsWithJSONBInfo)\<close>

text \<open>The row map of one fetched row: \<open>rowMap[colName] = value\<close> for every field in turn.\<close>

definition rowMap_of :: "string list \<Rightarrow> val list \<Rightarrow> row" where
  "rowMap_of fnames values = fold (\<lambda>(c, v) m. m(c \<mapsto> v)) (zip fnames values) Map.empty"

text \<open>
  The values collected for the primary key: for every field in turn, the value is
  appended once for every primary-key column of that name.
\<close>

definition pkValues_of :: "string list \<Rightarrow> string list \<Rightarrow> val list \<Rightarrow> val list" where
  "pkValues_of pkColumns fnames values =
     concat (map (\<lambda>(c, v). map (\<lambda>_. v) (filter (\<lambda>pkCol. c = pkCol) pkColumns))
                 (zip fnames values))"

definition pkKey_of :: "val list \<Rightarrow> val" where
  "pkKey_of pkValues =
     (case pkValues of [v] \<Rightarrow> v | _ \<Rightarrow> VText (show_vals pkValues))"

text \<open>
  The checks on one row, up to the computation of its key.  The driver delivers as many
  values as there are fields; were there more values than fields, the field lookup would
  panic.
\<close>

definition row_key :: "string list \<Rightarrow> string \<Rightarrow> string list \<Rightarrow> val list \<Rightarrow> extract_error + val" where
  "row_key pkColumns tableName fnames values =
     (if length fnames < length values then Inl FieldIndexOutOfRange
      else
        let pkValues = pkValues_of pkColumns fnames values in
        if length pkValues \<noteq> length pkColumns then Inl (PKMissing tableName)
        else
          let pkKey = pkKey_of pkValues in
          if pkKey = VNull then Inl (PKNull tableName) else Inr pkKey)"

text \<open>
  The loop over the rows.  It returns the error that ended it (if any), the state, and
  the rows collected in \<open>newRows\<close>.
\<close>

fun rows_loop ::
  "string list \<Rightarrow> string \<Rightarrow> TraversalOptions \<Rightarrow> string list \<Rightarrow> val list option list \<Rightarrow>
   TraversalState \<Rightarrow> row list \<Rightarrow> extract_error option \<times> TraversalState \<times> row list" where
  "rows_loop pkColumns tableName opts fnames [] s newRows = (None, s, newRows)"
| "rows_loop pkColumns tableName opts fnames (item # items) s newRows =
     (case item of
        None \<Rightarrow> (Some ScanRowFailed, s, newRows)
      | Some values \<Rightarrow>
          (case row_key pkColumns tableName fnames values of
             Inl e \<Rightarrow> (Some e, s, newRows)
           | Inr pkKey \<Rightarrow>
               if pkKey \<in> visited_of s tableName
               then rows_loop pkColumns tableName opts fnames items s newRows
               else
                 let s' = s\<lparr>VisitedRows :=
                              (VisitedRows s)(tableName \<mapsto> insert pkKey (visited_of s tableName)),
                            RowCount := RowCount s + 1\<rparr>;
                     newRows' = newRows @ [rowMap_of fnames values]
                 in if \<not> Force opts \<and> MaxRows opts <s RowCount s'
                    then (Some (RowLimitExceeded (MaxRows opts)), s', newRows')
                    else rows_loop pkColumns tableName opts fnames items s' newRows'))"

definition init_visited :: "string \<Rightarrow> TraversalState \<Rightarrow> TraversalState" where
  "init_visited tableName s =
     (if VisitedRows s tableName = None
      then s\<lparr>VisitedRows := (VisitedRows s)(tableName \<mapsto> {})\<rparr> else s)"

definition append_rows :: "string \<Rightarrow> row list \<Rightarrow> TraversalState \<Rightarrow> TraversalState" where
  "append_rows tableName newRows s =
     (if newRows \<noteq> []
      then s\<lparr>TableData := (TableData s)(tableName \<mapsto> data_of s tableName @ newRows)\<rparr>
      else s)"

definition processRows ::
  "Graph \<Rightarrow> TraversalOptions \<Rightarrow> result_set \<Rightarrow> string \<Rightarrow> TraversalState \<Rightarrow>
   extract_error option \<times> TraversalState" where
  "processRows g opts rows tableName s =
     (let fieldDescriptions = FieldDescriptions rows;
          pkColumns = GetPrimaryKeyColumns g tableName
      in case rows_loop pkColumns tableName opts fieldDescriptions (Items rows)
                (init_visited tableName s) [] of
           (Some e, s1, newRows) \<Rightarrow> (Some e, s1)
         | (None, s1, newRows) \<Rightarrow>
             (if Err rows then Some RowsError else None, append_rows tableName newRows s1))"

text \<open>
  \<open>processRowsWithJSONBInfo\<close> has the body of \<open>processRows\<close>; its extra argument
  \<open>jsonbCols\<close> is not read.
\<close>

definition processRowsWithJSONBInfo ::
  "Graph \<Rightarrow> TraversalOptions \<Rightarrow> result_set \<Rightarrow> string \<Rightarrow> string list \<Rightarrow> TraversalState \<Rightarrow>
   extract_error option \<times> TraversalState" where
  "processRowsWithJSONBInfo g opts rows tableName jsonbCols s =
     (let fieldDescriptions = FieldDescriptions rows;
          pkColumns = GetPrimaryKeyColumns g tableName
      in case rows_loop pkColumns tableName opts fieldDescriptions (Items rows)
                (init_visited tableName s) [] of
           (Some e, s1, newRows) \<Rightarrow> (Some e, s1)
         | (None, s1, newRows) \<Rightarrow>
             (if Err rows then Some RowsError else None, append_rows tableName newRows s1))"


section \<open>Small facts and examples\<close>

lemma visited_of_init [simp]: "visited_of (init_visited t s) t' = visited_of s t'"
  by (auto simp: visited_of_def init_visited_def)

lemma RowCount_init [simp]: "RowCount (init_visited t s) = RowCount s"
  by (simp add: init_visited_def)

lemma TableData_init [simp]: "TableData (init_visited t s) = TableData s"
  by (simp add: init_visited_def)

lemma processRows_JSONB_eq:
  "processRowsWithJSONBInfo g opts rows t jsonbCols s = processRows g opts rows t s"
  by (simp add: processRowsWithJSONBInfo_def processRows_def)

text \<open>A table \<open>users\<close> with the key \<open>id\<close>, a cap of two rows, and a result set of two users.\<close>

definition users_graph :: Graph where
  "users_graph = \<lparr>Parents = [], Children = [], PrimaryKey = [(''users'', [''id''])]\<rparr>"

definition cap2 :: TraversalOptions where
  "cap2 = \<lparr>ParentsOnly = False, ChildrenOnly = False, SelectedChildren = [],
            MaxRows = 2, Force = False, Verbose = False\<rparr>"

definition two_users :: result_set where
  "two_users = \<lparr>FieldDescriptions = [''id'', ''name''],
     Items = [Some [VInt32 1, VText ''a''], Some [VInt32 2, VText ''b'']],
     Err = False\<rparr>"


section \<open>Primary-key checks of the row processor\<close>

definition memberships_graph :: Graph where
  "memberships_graph =
     \<lparr>Parents = [], Children = [], PrimaryKey = [(''memberships'', [''org_id'', ''user_id''])]\<rparr>"

definition null_component :: result_set where
  "null_component = \<lparr>FieldDescriptions = [''org_id'', ''user_id''],
     Items = [Some [VNull, VInt32 5]], Err = False\<rparr>"

definition null_single :: result_set where
  "null_single = \<lparr>FieldDescriptions = [''id'', ''name''],
     Items = [Some [VNull, VText ''a'']], Err = False\<rparr>"

lemma show_vals_null_5: "show_vals [VNull, VInt32 5] = ''[<nil> 5]''"
  by code_simp

text \<open>
  C8.  The null check is made on the key, after the key has been built.  For a
  single-column primary key the key is the value itself, and a null value is refused
  (second conjunct).  For a composite primary key the key is the text rendering of the
  values, which is never the null marker: a row whose \<open>org_id\<close> is null is accepted,
  stored, and recorded under the key \<open>[<nil> 5]\<close> (first conjunct).
\<close>

theorem composite_null_component_accepted:
  "processRows memberships_graph cap2 null_component ''memberships'' NewTraversalState =
     (None, \<lparr>VisitedRows = [''memberships'' \<mapsto> {VText ''[<nil> 5]''}],
             TableData = [''memberships'' \<mapsto> [[''org_id'' \<mapsto> VNull, ''user_id'' \<mapsto> VInt32 5]]],
             RowCount = 1\<rparr>) \<and>
   processRows users_graph cap2 null_single ''users'' NewTraversalState =
     (Some (PKNull ''users''),
      \<lparr>VisitedRows = [''users'' \<mapsto> {}], TableData = Map.empty, RowCount = 0\<rparr>)"
  by (simp add: processRows_def memberships_graph_def null_component_def GetPrimaryKeyColumns_def
      slice_at_def NewTraversalState_def init_visited_def row_key_def pkValues_of_def pkKey_of_def
      visited_of_def cap2_def append_rows_def data_of_def rowMap_of_def Let_def show_vals_null_5
      users_graph_def null_single_def word_sless_alt)


section \<open>Fetching rows (executeRootQuery, fetchRowsByPK, fetchRowsByFK)\<close>

text \<open>
  The source database is read through two kinds of statement: the catalog query for
  the columns of a table (name and data type, in ordinal order), and data queries with
  their arguments.  Its answers are taken as parameters.  For the catalog query: \<open>None\<close>
  when the query fails, else the rows, where a row is \<open>None\<close> when \<open>Scan\<close> fails on it.
  For a data query: \<open>None\<close> when the query fails, else the result set.
\<close>

record SourceDB =
  column_info :: "string \<Rightarrow> (string \<times> string) option list option"
  run_query :: "string \<Rightarrow> val list \<Rightarrow> result_set option"

datatype stmt = ColumnInfoQuery string | DataQuery string "val list"

record QueryInfo =
  Query :: string
  BaseTable :: string

fun scan_columns :: "(string \<times> string) option list \<Rightarrow> (string \<times> string) list option" where
  "scan_columns [] = Some []"
| "scan_columns (None # rest) = None"
| "scan_columns (Some c # rest) = map_option ((#) c) (scan_columns rest)"

definition is_json_type :: "string \<Rightarrow> bool" where
  "is_json_type dataType = (dataType = ''jsonb'' \<or> dataType = ''json'')"

definition jsonb_columns :: "(string \<times> string) list \<Rightarrow> string list" where
  "jsonb_columns cols = map fst (filter (\<lambda>(colName, dataType). is_json_type dataType) cols)"

text \<open>The select list built by \<open>executeRootQuery\<close> when it rewrites \<open>SELECT *\<close>.\<close>

definition root_select_cols :: "(string \<times> string) list \<Rightarrow> string list" where
  "root_select_cols cols =
     map (\<lambda>(colName, dataType).
            if is_json_type dataType then colName @ ''::text AS '' @ colName else colName) cols"

text \<open>The select list built by \<open>fetchRowsByPK\<close> and \<open>fetchRowsByFK\<close>.\<close>

definition fetch_select_cols :: "(string \<times> string) list \<Rightarrow> string list" where
  "fetch_select_cols cols =
     map (\<lambda>(colName, dataType).
            if is_json_type dataType then ''to_jsonb('' @ colName @ '')::text AS '' @ colName
            else colName) cols"

definition rewrite_select_star :: "string \<Rightarrow> string list \<Rightarrow> string" where
  "rewrite_select_star query selectCols =
     (let replacement = ''SELECT '' @ Join selectCols '', ''
      in ReplaceFirst (ReplaceFirst query ''SELECT *'' replacement) ''select *'' replacement)"

text \<open>
  \<open>executeRootQuery\<close> returns the error (if any), the state, and the statements sent
  to the source database, in order.
\<close>

definition run_root ::
  "SourceDB \<Rightarrow> Graph \<Rightarrow> TraversalOptions \<Rightarrow> string \<Rightarrow> string \<Rightarrow> bool \<Rightarrow> string list \<Rightarrow>
   stmt list \<Rightarrow> TraversalState \<Rightarrow> extract_error option \<times> TraversalState \<times> stmt list" where
  "run_root db g opts queryToRun baseTable hasJSONB jsonbCols sent s =
     (case run_query db queryToRun [] of
        None \<Rightarrow> (Some RootQueryFailed, s, sent @ [DataQuery queryToRun []])
      | Some rows \<Rightarrow>
          (let (e, s') = (if hasJSONB
                          then processRowsWithJSONBInfo g opts rows baseTable jsonbCols s
                          else processRows g opts rows baseTable s)
           in (e, s', sent @ [DataQuery queryToRun []])))"

definition executeRootQuery ::
  "unicode_tables \<Rightarrow> SourceDB \<Rightarrow> Graph \<Rightarrow> TraversalOptions \<Rightarrow> QueryInfo \<Rightarrow> TraversalState \<Rightarrow>
   extract_error option \<times> TraversalState \<times> stmt list" where
  "executeRootQuery uni db g opts queryInfo s =
     (let baseTable = BaseTable queryInfo in
      case column_info db baseTable of
        None \<Rightarrow> (Some (ColumnInfoFailed baseTable), s, [ColumnInfoQuery baseTable])
      | Some colRows \<Rightarrow>
          (case scan_columns colRows of
             None \<Rightarrow> (Some ColumnScanFailed, s, [ColumnInfoQuery baseTable])
           | Some cols \<Rightarrow>
               (let jsonbCols = jsonb_columns cols;
                    hasJSONB = (jsonbCols \<noteq> [])
                in if hasJSONB \<and> Contains (ToUpper uni (Query queryInfo)) ''SELECT *''
                   then
                     (case column_info db baseTable of
                        None \<Rightarrow> (Some GetColumnsFailed, s,
                                  [ColumnInfoQuery baseTable, ColumnInfoQuery baseTable])
                      | Some allCols \<Rightarrow>
                          (case scan_columns allCols of
                             None \<Rightarrow> (Some ScanColumnFailed, s,
                                       [ColumnInfoQuery baseTable, ColumnInfoQuery baseTable])
                           | Some cols2 \<Rightarrow>
                               run_root db g opts
                                 (rewrite_select_star (Query queryInfo) (root_select_cols cols2))
                                 baseTable hasJSONB jsonbCols
                                 [ColumnInfoQuery baseTable, ColumnInfoQuery baseTable] s))
                   else run_root db g opts (Query queryInfo) baseTable hasJSONB jsonbCols
                          [ColumnInfoQuery baseTable] s)))"

definition placeholders_of :: "val list \<Rightarrow> string list" where
  "placeholders_of vs = map (\<lambda>i. ''$'' @ show_nat (i + 1)) [0..<length vs]"

definition fetch_query :: "string list \<Rightarrow> string \<Rightarrow> string \<Rightarrow> val list \<Rightarrow> string \<Rightarrow> string" where
  "fetch_query selectCols tableName whereColumn vs orderColumn =
     ''SELECT '' @ Join selectCols '', '' @ '' FROM '' @ tableName @ '' WHERE '' @ whereColumn @
     '' IN ('' @ Join (placeholders_of vs) '', '' @ '') ORDER BY '' @ orderColumn"

definition fetch_rows ::
  "SourceDB \<Rightarrow> Graph \<Rightarrow> TraversalOptions \<Rightarrow> string \<Rightarrow> string \<Rightarrow> string \<Rightarrow> val list \<Rightarrow>
   TraversalState \<Rightarrow> extract_error option \<times> TraversalState \<times> stmt list" where
  "fetch_rows db g opts tableName whereColumn orderColumn vs s =
     (if vs = [] then (None, s, [])
      else
        case column_info db tableName of
          None \<Rightarrow> (Some (ColumnInfoFailed tableName), s, [ColumnInfoQuery tableName])
        | Some colRows \<Rightarrow>
            (case scan_columns colRows of
               None \<Rightarrow> (Some ColumnScanFailed, s, [ColumnInfoQuery tableName])
             | Some cols \<Rightarrow>
                 (let query = fetch_query (fetch_select_cols cols) tableName whereColumn vs orderColumn;
                      sent = [ColumnInfoQuery tableName, DataQuery query vs]
                  in case run_query db query vs of
                       None \<Rightarrow> (Some (FetchFailed tableName), s, sent)
                     | Some rows \<Rightarrow>
                         (let (e, s') = processRowsWithJSONBInfo g opts rows tableName
                                          (jsonb_columns cols) s
                          in (e, s', sent)))))"

text \<open>
  \<open>fetchRowsByPK\<close> selects and orders by the given column; \<open>fetchRowsByFK\<close> selects by
  the foreign-key column and orders by the first primary-key column of the table.
\<close>

definition fetchRowsByPK ::
  "SourceDB \<Rightarrow> Graph \<Rightarrow> TraversalOptions \<Rightarrow> string \<Rightarrow> string \<Rightarrow> val list \<Rightarrow>
   TraversalState \<Rightarrow> extract_error option \<times> TraversalState \<times> stmt list" where
  "fetchRowsByPK db g opts tableName pkColumn vs s =
     fetch_rows db g opts tableName pkColumn pkColumn vs s"

definition fetchRowsByFK ::
  "SourceDB \<Rightarrow> Graph \<Rightarrow> TraversalOptions \<Rightarrow> string \<Rightarrow> string \<Rightarrow> val list \<Rightarrow>
   TraversalState \<Rightarrow> extract_error option \<times> TraversalState \<times> stmt list" where
  "fetchRowsByFK db g opts tableName fkColumn vs s =
     fetch_rows db g opts tableName fkColumn (GetPrimaryKey g tableName) vs s"


section \<open>The rewrite of the root query\<close>

definition projects_db :: SourceDB where
  "projects_db =
     \<lparr>column_info = (\<lambda>t. if t = ''projects''
                          then Some [Some (''id'', ''integer''), Some (''name'', ''text''),
                                     Some (''metadata'', ''jsonb'')]
                          else Some []),
      run_query = (\<lambda>q args. Some \<lparr>FieldDescriptions = [''id'', ''name'', ''metadata''],
                                    Items = [], Err = False\<rparr>)\<rparr>"

definition projects_graph :: Graph where
  "projects_graph = \<lparr>Parents = [], Children = [], PrimaryKey = [(''projects'', [''id''])]\<rparr>"

definition projects_root :: QueryInfo where
  "projects_root = \<lparr>Query = ''SELECT * FROM projects WHERE id = 1'', BaseTable = ''projects''\<rparr>"

lemma projects_root_is_ascii: "is_ascii ''SELECT * FROM projects WHERE id = 1''"
  by code_simp

lemma projects_root_has_select_star:
  "Contains (ToUpper uni ''SELECT * FROM projects WHERE id = 1'') ''SELECT *''"
proof -
  have "Contains (map upper_char ''SELECT * FROM projects WHERE id = 1'') ''SELECT *''"
    by code_simp
  then show ?thesis by (simp only: ToUpper_def projects_root_is_ascii if_True)
qed

lemma projects_root_rewritten:
  "rewrite_select_star ''SELECT * FROM projects WHERE id = 1''
     [''id'', ''name'', ''metadata::text AS metadata''] =
   ''SELECT id, name, metadata::text AS metadata FROM projects WHERE id = 1''"
  by code_simp

lemma projects_root_rewritten_to_jsonb:
  "rewrite_select_star ''SELECT * FROM projects WHERE id = 1''
     [''id'', ''name'', ''to_jsonb(metadata)::text AS metadata''] =
   ''SELECT id, name, to_jsonb(metadata)::text AS metadata FROM projects WHERE id = 1''"
  by code_simp

text \<open>
  C4.  For the root query \<open>SELECT * FROM projects WHERE id = 1\<close> on a table with the
  JSONB column \<open>metadata\<close>, \<open>executeRootQuery\<close> sends the rewritten query in which the
  column is projected as \<open>metadata::text AS metadata\<close>.  The projection of the non-root
  fetches, \<open>to_jsonb(metadata)::text AS metadata\<close>, would give a different query text
  (second conjunct).
\<close>

theorem root_query_plain_text_cast:
  "snd (snd (executeRootQuery uni projects_db projects_graph cap2 projects_root NewTraversalState)) =
     [ColumnInfoQuery ''projects'', ColumnInfoQuery ''projects'',
      DataQuery ''SELECT id, name, metadata::text AS metadata FROM projects WHERE id = 1'' []] \<and>
   rewrite_select_star (Query projects_root)
       (fetch_select_cols [(''id'', ''integer''), (''name'', ''text''), (''metadata'', ''jsonb'')]) =
     ''SELECT id, name, to_jsonb(metadata)::text AS metadata FROM projects WHERE id = 1''"
  by (simp add: executeRootQuery_def projects_db_def projects_root_def jsonb_columns_def
      is_json_type_def projects_root_has_select_star projects_root_rewritten
      projects_root_rewritten_to_jsonb root_select_cols_def fetch_select_cols_def run_root_def
      Let_def split: prod.splits)


section \<open>Topological sort (internal/graph/topo.go)\<close>

text \<open>
  The maps \<open>inDegree\<close> and \<open>adjList\<close> of \<open>TopologicalSort\<close> are association lists
  written with \<open>AList.update\<close> and read with \<open>map_of\<close>; an absent key reads as \<open>0\<close> or as
  the empty slice, as in Go.  \<open>keys_of\<close> lists every key once, as \<open>range\<close> over a Go map
  does (the order of \<open>range\<close> is not specified; the one use sorts the keys afterwards).
  \<open>tableSet[t]\<close> is membership in the input list.  \<open>sort.Strings\<close> is \<open>sort\<close> on the
  bytewise lexicographic order of strings.
\<close>

definition get_count :: "(string \<times> int) list \<Rightarrow> string \<Rightarrow> int" where
  "get_count m k = (case map_of m k of None \<Rightarrow> 0 | Some n \<Rightarrow> n)"

definition keys_of :: "(string \<times> 'a) list \<Rightarrow> string list" where
  "keys_of m = remdups (map fst m)"

datatype graph_error =
  CycleInTableDependencies "string list"
| CyclicForeignKeys "string list"

text \<open>The first two loops: every table gets in-degree 0, then every foreign key of a table
  to another table of the input adds an edge from the parent to the table.\<close>

definition init_inDegree :: "string list \<Rightarrow> (string \<times> int) list" where
  "init_inDegree tables = fold (\<lambda>table m. AList.update table 0 m) tables []"

definition link_parent ::
  "string list \<Rightarrow> string \<Rightarrow> ForeignKey \<Rightarrow>
   (string \<times> string list) list \<times> (string \<times> int) list \<Rightarrow>
   (string \<times> string list) list \<times> (string \<times> int) list" where
  "link_parent tables table fk st =
     (case st of (adjList, inDegree) \<Rightarrow>
        if ParentTable fk = table then st
        else if ParentTable fk \<in> set tables
        then (AList.update (ParentTable fk) (slice_at adjList (ParentTable fk) @ [table]) adjList,
              AList.update table (get_count inDegree table + 1) inDegree)
        else st)"

definition link_table ::
  "Graph \<Rightarrow> string list \<Rightarrow> string \<Rightarrow>
   (string \<times> string list) list \<times> (string \<times> int) list \<Rightarrow>
   (string \<times> string list) list \<times> (string \<times> int) list" where
  "link_table g tables table st = fold (link_parent tables table) (GetParents g table) st"

text \<open>The body of the loop over the children of the dequeued table.\<close>

definition relax ::
  "string \<Rightarrow> (string \<times> int) list \<times> string list \<Rightarrow> (string \<times> int) list \<times> string list" where
  "relax child st =
     (case st of (inDegree, queue) \<Rightarrow>
        let inDegree' = AList.update child (get_count inDegree child - 1) inDegree
        in if get_count inDegree' child = 0 then (inDegree', sort (queue @ [child]))
           else (inDegree', queue))"

definition relax_children ::
  "string list \<Rightarrow> (string \<times> int) list \<times> string list \<Rightarrow> (string \<times> int) list \<times> string list" where
  "relax_children children st = fold relax (sort children) st"

text \<open>
  The main loop runs while the queue is not empty.  It terminates because every pass
  removes one table from the queue, and a table is only added to the queue when its
  in-degree drops from 1 to 0.
\<close>

definition kahn_measure :: "(string \<times> int) list \<times> string list \<Rightarrow> nat" where
  "kahn_measure st = length (snd st) + card {k. 0 < get_count (fst st) k}"

lemma finite_positive: "finite {k. 0 < get_count m k}"
proof (rule finite_subset)
  show "{k. 0 < get_count m k} \<subseteq> dom (map_of m)"
    by (auto simp: get_count_def split: option.splits)
  show "finite (dom (map_of m))" by (rule finite_dom_map_of)
qed

lemma get_count_update [simp]:
  "get_count (AList.update k v m) k' = (if k' = k then v else get_count m k')"
  by (simp add: get_count_def update_conv')

lemma relax_measure: "kahn_measure (relax child st) \<le> kahn_measure st"
proof -
  obtain m q where st: "st = (m, q)" by (cases st)
  let ?v = "get_count m child - 1"
  let ?m' = "AList.update child ?v m"
  show ?thesis
  proof (cases "?v = 0")
    case True
    then have pos: "{k. 0 < get_count ?m' k} = {k. 0 < get_count m k} - {child}"
      by auto
    have mem: "child \<in> {k. 0 < get_count m k}" using True by simp
    have "card ({k. 0 < get_count m k} - {child}) < card {k. 0 < get_count m k}"
      by (rule card_Diff1_less [OF finite_positive mem])
    then show ?thesis using True pos
      by (simp add: relax_def st kahn_measure_def Let_def)
  next
    case False
    have "{k. 0 < get_count ?m' k} \<subseteq> {k. 0 < get_count m k}"
      by auto
    then have "card {k. 0 < get_count ?m' k} \<le> card {k. 0 < get_count m k}"
      by (rule card_mono [OF finite_positive])
    then show ?thesis using False
      by (simp add: relax_def st kahn_measure_def Let_def)
  qed
qed

lemma fold_relax_measure: "kahn_measure (fold relax cs st) \<le> kahn_measure st"
proof (induction cs arbitrary: st)
  case Nil
  show ?case by simp
next
  case (Cons c cs)
  have "kahn_measure (fold relax cs (relax c st)) \<le> kahn_measure (relax c st)"
    by (rule Cons.IH)
  also have "\<dots> \<le> kahn_measure st" by (rule relax_measure)
  finally show ?case by simp
qed

lemma relax_children_measure:
  "kahn_measure (relax_children cs st) \<le> kahn_measure st"
  unfolding relax_children_def by (rule fold_relax_measure)

function kahn ::
  "(string \<times> string list) list \<Rightarrow> (string \<times> int) list \<Rightarrow> string list \<Rightarrow> string list \<Rightarrow>
   (string \<times> int) list \<times> string list" where
  "kahn adjList inDegree [] result = (inDegree, result)"
| "kahn adjList inDegree (current # queue) result =
     (let st = relax_children (slice_at adjList current) (inDegree, queue)
      in kahn adjList (fst st) (snd st) (result @ [current]))"
  by pat_completeness auto
termination
proof (relation "measure (\<lambda>(adjList, inDegree, queue, result). kahn_measure (inDegree, queue))")
  show "wf (measure (\<lambda>(adjList, inDegree, queue, result). kahn_measure (inDegree, queue)))"
    by simp
next
  fix adjList :: "(string \<times> string list) list" and inDegree :: "(string \<times> int) list"
    and current :: string and queue result :: "string list" and st
  assume st: "st = relax_children (slice_at adjList current) (inDegree, queue)"
  have "kahn_measure (fst st, snd st) \<le> kahn_measure (inDegree, queue)"
    unfolding st by (simp add: relax_children_measure)
  also have "\<dots> < kahn_measure (inDegree, current # queue)"
    by (simp add: kahn_measure_def)
  finally show "((adjList, fst st, snd st, result @ [current]), (adjList, inDegree, current # queue, result))
        \<in> measure (\<lambda>(adjList, inDegree, queue, result). kahn_measure (inDegree, queue))"
    by simp
qed

definition TopologicalSort :: "Graph \<Rightarrow> string list \<Rightarrow> graph_error + string list" where
  "TopologicalSort g tables =
     (let (adjList, inDegree) = fold (link_table g tables) tables ([], init_inDegree tables);
          queue = sort (filter (\<lambda>table. get_count inDegree table = 0) tables);
          (inDegree', result) = kahn adjList inDegree queue []
      in if length result \<noteq> length tables
         then Inl (CycleInTableDependencies
                     (sort (filter (\<lambda>table. 0 < get_count inDegree' table) (keys_of inDegree'))))
         else Inr result)"

text \<open>The foreign keys of part of the integration schema.\<close>

definition org_graph :: Graph where
  "org_graph =
     \<lparr>Parents = [(''users'', [\<lparr>ChildTable = ''users'', ChildColumn = ''org_id'', ParentTable = ''organizations'', ParentColumn = ''id''\<rparr>,
                               \<lparr>ChildTable = ''users'', ChildColumn = ''manager_id'', ParentTable = ''users'', ParentColumn = ''id''\<rparr>]),
                 (''projects'', [\<lparr>ChildTable = ''projects'', ChildColumn = ''org_id'', ParentTable = ''organizations'', ParentColumn = ''id''\<rparr>]),
                 (''tasks'', [\<lparr>ChildTable = ''tasks'', ChildColumn = ''project_id'', ParentTable = ''projects'', ParentColumn = ''id''\<rparr>,
                              \<lparr>ChildTable = ''tasks'', ChildColumn = ''assigned_to'', ParentTable = ''users'', ParentColumn = ''id''\<rparr>])],
      Children = [], PrimaryKey = []\<rparr>"

section \<open>Correctness of the topological sort\<close>

subsection \<open>The edges built by the first loops\<close>

lemma slice_at_update [simp]:
  "slice_at (AList.update k v m) k' = (if k' = k then v else slice_at m k')"
  by (simp add: slice_at_def update_conv')

text \<open>A foreign key of a table adds an edge when its parent is another table of the input.\<close>

definition qualifies :: "string list \<Rightarrow> string \<Rightarrow> ForeignKey \<Rightarrow> bool" where
  "qualifies tables table fk = (ParentTable fk \<noteq> table \<and> ParentTable fk \<in> set tables)"

lemma link_parent_adj:
  "slice_at (fst (link_parent tables t fk (adj, ind))) p =
     slice_at adj p @ (if qualifies tables t fk \<and> ParentTable fk = p then [t] else [])"
  by (auto simp: link_parent_def qualifies_def)

lemma link_parent_count:
  "get_count (snd (link_parent tables t fk (adj, ind))) c =
     get_count ind c + (if qualifies tables t fk \<and> c = t then 1 else 0)"
  by (auto simp: link_parent_def qualifies_def)

lemma link_parent_dom:
  "dom (map_of (snd (link_parent tables t fk (adj, ind)))) \<subseteq> insert t (dom (map_of ind))"
  by (auto simp: link_parent_def update_conv' split: if_splits)

lemma link_parent_dom_mono:
  "dom (map_of ind) \<subseteq> dom (map_of (snd (link_parent tables t fk (adj, ind))))"
  by (auto simp: link_parent_def update_conv' split: if_splits)

lemma fold_link_parent_adj:
  "slice_at (fst (fold (link_parent tables t) fks st)) p =
     slice_at (fst st) p @
     replicate (length (filter (\<lambda>fk. qualifies tables t fk \<and> ParentTable fk = p) fks)) t"
proof (induction fks arbitrary: st)
  case Nil
  show ?case by simp
next
  case (Cons fk fks)
  obtain adj ind where st: "st = (adj, ind)" by (cases st)
  show ?case
    by (simp add: Cons.IH st link_parent_adj replicate_app_Cons_same)
qed

lemma fold_link_parent_count:
  "get_count (snd (fold (link_parent tables t) fks st)) c =
     get_count (snd st) c + (if c = t then int (length (filter (qualifies tables t) fks)) else 0)"
proof (induction fks arbitrary: st)
  case Nil
  show ?case by simp
next
  case (Cons fk fks)
  obtain adj ind where st: "st = (adj, ind)" by (cases st)
  show ?case
    by (simp add: Cons.IH st link_parent_count)
qed

lemma fold_link_parent_dom:
  "dom (map_of (snd (fold (link_parent tables t) fks st))) \<subseteq> insert t (dom (map_of (snd st)))"
proof (induction fks arbitrary: st)
  case Nil
  show ?case by auto
next
  case (Cons fk fks)
  obtain adj ind where st: "st = (adj, ind)" by (cases st)
  have "dom (map_of (snd (fold (link_parent tables t) fks (link_parent tables t fk st))))
        \<subseteq> insert t (dom (map_of (snd (link_parent tables t fk st))))"
    by (rule Cons.IH)
  also have "\<dots> \<subseteq> insert t (dom (map_of (snd st)))"
    using link_parent_dom [of tables t fk adj ind] unfolding st by auto
  finally show ?case by simp
qed

lemma fold_link_parent_dom_mono:
  "dom (map_of (snd st)) \<subseteq> dom (map_of (snd (fold (link_parent tables t) fks st)))"
proof (induction fks arbitrary: st)
  case Nil
  show ?case by auto
next
  case (Cons fk fks)
  obtain adj ind where st: "st = (adj, ind)" by (cases st)
  have "dom (map_of (snd st)) \<subseteq> dom (map_of (snd (link_parent tables t fk st)))"
    using link_parent_dom_mono [of ind tables t fk adj] unfolding st by simp
  also have "\<dots> \<subseteq> dom (map_of (snd (fold (link_parent tables t) fks (link_parent tables t fk st))))"
    by (rule Cons.IH)
  finally show ?case by simp
qed

definition edge_count :: "Graph \<Rightarrow> string list \<Rightarrow> string \<Rightarrow> string \<Rightarrow> nat" where
  "edge_count g tables p c =
     length (filter (\<lambda>fk. qualifies tables c fk \<and> ParentTable fk = p) (GetParents g c))"

definition parent_count :: "Graph \<Rightarrow> string list \<Rightarrow> string \<Rightarrow> nat" where
  "parent_count g tables c = length (filter (qualifies tables c) (GetParents g c))"

lemma count_list_replicate [simp]:
  "count_list (replicate n x) y = (if x = y then n else 0)"
  by (induction n) auto

lemma count_list_pos_iff: "0 < count_list xs x \<longleftrightarrow> x \<in> set xs"
  using count_list_0_iff [of xs x] by auto

lemma link_table_adj:
  "count_list (slice_at (fst (link_table g tables t st)) p) c =
     count_list (slice_at (fst st) p) c + (if c = t then edge_count g tables p c else 0)"
  by (simp add: link_table_def fold_link_parent_adj edge_count_def)

lemma link_table_count:
  "get_count (snd (link_table g tables t st)) c =
     get_count (snd st) c + (if c = t then int (parent_count g tables c) else 0)"
  by (simp add: link_table_def fold_link_parent_count parent_count_def)

lemma link_table_dom:
  "dom (map_of (snd (link_table g tables t st))) \<subseteq> insert t (dom (map_of (snd st)))"
  unfolding link_table_def by (rule fold_link_parent_dom)

lemma link_table_dom_mono:
  "dom (map_of (snd st)) \<subseteq> dom (map_of (snd (link_table g tables t st)))"
  unfolding link_table_def by (rule fold_link_parent_dom_mono)

lemma build_adj:
  "count_list (slice_at (fst (fold (link_table g tables) ts st)) p) c =
     count_list (slice_at (fst st) p) c + count_list ts c * edge_count g tables p c"
proof (induction ts arbitrary: st)
  case Nil
  show ?case by simp
next
  case (Cons t ts)
  show ?case
    by (simp add: Cons.IH link_table_adj algebra_simps)
qed

lemma build_count:
  "get_count (snd (fold (link_table g tables) ts st)) c =
     get_count (snd st) c + int (count_list ts c) * int (parent_count g tables c)"
proof (induction ts arbitrary: st)
  case Nil
  show ?case by simp
next
  case (Cons t ts)
  show ?case
    by (simp add: Cons.IH link_table_count algebra_simps)
qed

lemma build_dom:
  "dom (map_of (snd st)) \<subseteq> dom (map_of (snd (fold (link_table g tables) ts st))) \<and>
   dom (map_of (snd (fold (link_table g tables) ts st))) \<subseteq> set ts \<union> dom (map_of (snd st))"
proof (induction ts arbitrary: st)
  case Nil
  show ?case by simp
next
  case (Cons t ts)
  let ?a = "dom (map_of (snd st))"
  let ?b = "dom (map_of (snd (link_table g tables t st)))"
  let ?c = "dom (map_of (snd (fold (link_table g tables) ts (link_table g tables t st))))"
  have 1: "?b \<subseteq> ?c" and 2: "?c \<subseteq> set ts \<union> ?b"
    using Cons.IH [of "link_table g tables t st"] by blast+
  have 3: "?b \<subseteq> insert t ?a" by (rule link_table_dom)
  have 4: "?a \<subseteq> ?b" by (rule link_table_dom_mono)
  have "?a \<subseteq> ?c" using 1 4 by blast
  moreover have "?c \<subseteq> set (t # ts) \<union> ?a"
  proof -
    have "?c \<subseteq> set ts \<union> insert t ?a" using 2 3 by blast
    then show ?thesis by simp
  qed
  ultimately show ?case by simp
qed

lemma init_inDegree_map:
  "map_of (fold (\<lambda>table m. AList.update table 0 m) ts m0) =
     (\<lambda>k. if k \<in> set ts then Some 0 else map_of m0 k)"
  by (induction ts arbitrary: m0) (auto simp: update_conv' fun_eq_iff)

lemma init_inDegree_count [simp]: "get_count (init_inDegree tables) c = 0"
  by (simp add: get_count_def init_inDegree_def init_inDegree_map)

lemma init_inDegree_dom [simp]: "dom (map_of (init_inDegree tables)) = set tables"
  by (auto simp: init_inDegree_def init_inDegree_map split: if_splits)

text \<open>The state after the first two loops.\<close>

definition built :: "Graph \<Rightarrow> string list \<Rightarrow> (string \<times> string list) list \<times> (string \<times> int) list" where
  "built g tables = fold (link_table g tables) tables ([], init_inDegree tables)"

lemma slice_at_Nil [simp]: "slice_at [] p = []"
  by (simp add: slice_at_def)

lemma built_adj:
  "count_list (slice_at (fst (built g tables)) p) c = count_list tables c * edge_count g tables p c"
  by (simp add: built_def build_adj)

lemma built_count:
  "get_count (snd (built g tables)) c = int (count_list tables c) * int (parent_count g tables c)"
  by (simp add: built_def build_count)

lemma built_dom: "dom (map_of (snd (built g tables))) = set tables"
  using build_dom [of "([], init_inDegree tables)" g tables tables]
  by (auto simp: built_def)

lemma built_adj_subset: "set (slice_at (fst (built g tables)) p) \<subseteq> set tables"
proof
  fix c assume "c \<in> set (slice_at (fst (built g tables)) p)"
  then have "0 < count_list (slice_at (fst (built g tables)) p) c"
    by (simp only: count_list_pos_iff)
  then have "0 < count_list tables c" by (simp add: built_adj)
  then show "c \<in> set tables" by (simp only: count_list_pos_iff)
qed

lemma sum_edge_count:
  assumes "finite T" "T = set tables"
  shows "(\<Sum>p\<in>T. edge_count g tables p c) = parent_count g tables c"
proof -
  have "(\<Sum>p\<in>T. length (filter (\<lambda>fk. qualifies tables c fk \<and> ParentTable fk = p) fks)) =
        length (filter (qualifies tables c) fks)" for fks
  proof (induction fks)
    case Nil
    show ?case by simp
  next
    case (Cons fk fks)
    have "(\<Sum>p\<in>T. length (filter (\<lambda>fk. qualifies tables c fk \<and> ParentTable fk = p) (fk # fks))) =
          (\<Sum>p\<in>T. (if p = ParentTable fk \<and> qualifies tables c fk then 1 else 0) +
                    length (filter (\<lambda>fk. qualifies tables c fk \<and> ParentTable fk = p) fks))"
      by (intro sum.cong) auto
    also have "\<dots> = (\<Sum>p\<in>T. if p = ParentTable fk \<and> qualifies tables c fk then 1 else 0) +
                     length (filter (qualifies tables c) fks)"
      by (simp add: sum.distrib Cons.IH)
    also have "(\<Sum>p\<in>T. if p = ParentTable fk \<and> qualifies tables c fk then 1 else 0) =
               (if qualifies tables c fk then 1 else (0::nat))"
      using assms by (auto simp: qualifies_def)
    finally show ?case by simp
  qed
  then show ?thesis by (simp add: edge_count_def parent_count_def)
qed


subsection \<open>The loop over the children\<close>

lemma relax_count:
  "get_count (fst (relax c (m, q))) k = get_count m k - (if k = c then 1 else 0)"
  by (simp add: relax_def Let_def)

lemma relax_queue_subset: "set (snd (relax c (m, q))) \<subseteq> insert c (set q)"
  by (auto simp: relax_def Let_def)

lemma fold_relax_count:
  "get_count (fst (fold relax cs st)) k = get_count (fst st) k - int (count_list cs k)"
proof (induction cs arbitrary: st)
  case Nil
  show ?case by simp
next
  case (Cons c cs)
  obtain m q where st: "st = (m, q)" by (cases st)
  show ?case by (simp add: Cons.IH st relax_count)
qed

lemma fold_relax_queue_subset: "set (snd (fold relax cs st)) \<subseteq> set cs \<union> set (snd st)"
proof (induction cs arbitrary: st)
  case Nil
  show ?case by simp
next
  case (Cons c cs)
  obtain m q where st: "st = (m, q)" by (cases st)
  have "set (snd (fold relax cs (relax c st))) \<subseteq> set cs \<union> set (snd (relax c st))"
    by (rule Cons.IH)
  also have "\<dots> \<subseteq> set cs \<union> insert c (set q)"
    using relax_queue_subset [of c m q] unfolding st by blast
  finally show ?case by (simp add: st)
qed

text \<open>The tables of the queue and of a set \<open>X\<close> have no in-degree left, and the queue
  has no duplicates and no table of \<open>X\<close>.\<close>

definition settled :: "string set \<Rightarrow> (string \<times> int) list \<times> string list \<Rightarrow> bool" where
  "settled X st \<longleftrightarrow>
     distinct (snd st) \<and> set (snd st) \<inter> X = {} \<and>
     (\<forall>c \<in> set (snd st) \<union> X. get_count (fst st) c \<le> 0)"

lemma relax_settled: "settled X st \<Longrightarrow> settled X (relax c st)"
proof -
  assume a: "settled X st"
  obtain m q where st: "st = (m, q)" by (cases st)
  let ?m' = "AList.update c (get_count m c - 1) m"
  have d: "distinct q" and i: "set q \<inter> X = {}"
    and le: "\<And>k. k \<in> set q \<union> X \<Longrightarrow> get_count m k \<le> 0"
    using a unfolding settled_def st by auto
  have le': "get_count ?m' k \<le> 0" if "k \<in> set q \<union> X" for k
    using le [OF that] by (cases "k = c") auto
  show ?thesis
  proof (cases "get_count m c - 1 = 0")
    case True
    then have one: "get_count m c = 1" by simp
    have notin: "c \<notin> set q \<union> X"
    proof
      assume "c \<in> set q \<union> X"
      then have "get_count m c \<le> 0" by (rule le)
      with one show False by simp
    qed
    have r: "relax c st = (?m', sort (q @ [c]))"
      using True by (simp add: relax_def st Let_def)
    have "get_count ?m' k \<le> 0" if "k \<in> set (sort (q @ [c])) \<union> X" for k
      using that le' [of k] True by auto
    then show ?thesis using d i notin unfolding settled_def r by auto
  next
    case False
    have r: "relax c st = (?m', q)"
      using False by (simp add: relax_def st Let_def)
    show ?thesis using d i le' unfolding settled_def r by auto
  qed
qed

lemma fold_relax_settled: "settled X st \<Longrightarrow> settled X (fold relax cs st)"
proof (induction cs arbitrary: st)
  case Nil
  then show ?case by simp
next
  case (Cons c cs)
  have "settled X (relax c st)" by (rule relax_settled [OF Cons.prems])
  then have "settled X (fold relax cs (relax c st))" by (rule Cons.IH)
  then show ?case by simp
qed


subsection \<open>The invariant of the main loop\<close>

lemma count_list_sort [simp]: "count_list (sort xs) x = count_list xs x"
proof -
  have "count (mset (sort xs)) x = count (mset xs) x" by simp
  then show ?thesis by (simp only: count_mset)
qed

definition pending :: "string set \<Rightarrow> (string \<times> string list) list \<Rightarrow> string list \<Rightarrow> string \<Rightarrow> nat" where
  "pending T adj result c = (\<Sum>p \<in> T - set result. count_list (slice_at adj p) c)"

definition parents_first :: "(string \<times> string list) list \<Rightarrow> string set \<Rightarrow> string list \<Rightarrow> bool" where
  "parents_first adj T res \<longleftrightarrow>
     (\<forall>i < length res. \<forall>p \<in> T. res ! i \<in> set (slice_at adj p) \<longrightarrow> p \<in> set (take i res))"

definition kahn_inv ::
  "string set \<Rightarrow> (string \<times> string list) list \<Rightarrow> (string \<times> int) list \<Rightarrow> string list \<Rightarrow> string list \<Rightarrow> bool" where
  "kahn_inv T adj ind queue result \<longleftrightarrow>
     settled (set result) (ind, queue) \<and> distinct result \<and> set queue \<union> set result \<subseteq> T \<and>
     (\<forall>c. int (pending T adj result c) \<le> get_count ind c) \<and> parents_first adj T result"

lemma pending_step:
  assumes "finite T" "current \<in> T" "current \<notin> set result"
  shows "pending T adj result c =
           count_list (slice_at adj current) c + pending T adj (result @ [current]) c"
proof -
  have f: "finite (T - set result)" using assms(1) by simp
  have m: "current \<in> T - set result" using assms by simp
  have "T - set (result @ [current]) = (T - set result) - {current}" by auto
  then show ?thesis
    unfolding pending_def using sum.remove [OF f m, of "\<lambda>p. count_list (slice_at adj p) c"]
    by simp
qed

lemma pending_ge:
  assumes "finite T" "p \<in> T" "p \<notin> set result"
  shows "count_list (slice_at adj p) c \<le> pending T adj result c"
  using pending_step [OF assms, of adj c] by simp

lemma kahn_step:
  assumes fin: "finite T" and adj: "\<forall>p. set (slice_at adj p) \<subseteq> T"
    and inv: "kahn_inv T adj ind (current # queue) result"
    and st: "st = relax_children (slice_at adj current) (ind, queue)"
  shows "kahn_inv T adj (fst st) (snd st) (result @ [current])"
proof -
  from inv have s0: "settled (set result) (ind, current # queue)"
    and dr: "distinct result" and sub: "set (current # queue) \<union> set result \<subseteq> T"
    and pen: "\<And>c. int (pending T adj result c) \<le> get_count ind c"
    and pf: "parents_first adj T result"
    unfolding kahn_inv_def by auto
  from s0 have cur_notin: "current \<notin> set result" and cur_le: "get_count ind current \<le> 0"
    unfolding settled_def by auto
  from sub have cur_T: "current \<in> T" by simp
  have "settled (set (result @ [current])) (ind, queue)"
    using s0 unfolding settled_def by auto
  then have s1: "settled (set (result @ [current])) st"
    unfolding st relax_children_def by (rule fold_relax_settled)
  have d1: "distinct (result @ [current])" using dr cur_notin by simp
  have "set (snd st) \<subseteq> set (sort (slice_at adj current)) \<union> set queue"
    unfolding st relax_children_def using fold_relax_queue_subset [of "sort (slice_at adj current)" "(ind, queue)"]
    by simp
  then have sub1: "set (snd st) \<union> set (result @ [current]) \<subseteq> T"
    using adj sub by auto
  have cnt: "get_count (fst st) c = get_count ind c - int (count_list (slice_at adj current) c)" for c
    unfolding st relax_children_def by (simp add: fold_relax_count)
  have pen1: "int (pending T adj (result @ [current]) c) \<le> get_count (fst st) c" for c
    using pen [of c] pending_step [OF fin cur_T cur_notin, of adj c] by (simp add: cnt)
  have cur_parents: "p \<in> set result" if "p \<in> T" "current \<in> set (slice_at adj p)" for p
  proof (rule ccontr)
    assume "p \<notin> set result"
    then have "count_list (slice_at adj p) current \<le> pending T adj result current"
      by (rule pending_ge [OF fin that(1)])
    moreover have "0 < count_list (slice_at adj p) current"
      using that(2) by (simp only: count_list_pos_iff)
    ultimately have "0 < int (pending T adj result current)" by simp
    with pen [of current] cur_le show False by simp
  qed
  have pf1: "parents_first adj T (result @ [current])"
    unfolding parents_first_def
  proof (intro allI impI ballI)
    fix i p
    assume i: "i < length (result @ [current])" and p: "p \<in> T"
      and mem: "(result @ [current]) ! i \<in> set (slice_at adj p)"
    show "p \<in> set (take i (result @ [current]))"
    proof (cases "i < length result")
      case True
      then have "result ! i \<in> set (slice_at adj p)" using mem by (simp add: nth_append)
      then have "p \<in> set (take i result)"
        using pf True p unfolding parents_first_def by blast
      then show ?thesis using True by simp
    next
      case False
      then have ieq: "i = length result" using i by simp
      then have "current \<in> set (slice_at adj p)" using mem by simp
      then have "p \<in> set result" by (rule cur_parents [OF p])
      then show ?thesis using ieq by simp
    qed
  qed
  show ?thesis
    unfolding kahn_inv_def using s1 d1 sub1 pen1 pf1 by simp
qed

lemma kahn_result:
  assumes "finite T" "\<forall>p. set (slice_at adj p) \<subseteq> T" "kahn_inv T adj ind queue result"
  shows "distinct (snd (kahn adj ind queue result)) \<and>
         set (snd (kahn adj ind queue result)) \<subseteq> T \<and>
         parents_first adj T (snd (kahn adj ind queue result))"
  using assms
proof (induction adj ind queue result rule: kahn.induct)
  case (1 adjList inDegree result)
  then show ?case unfolding kahn_inv_def by simp
next
  case (2 adjList inDegree current queue result)
  define st where "st = relax_children (slice_at adjList current) (inDegree, queue)"
  have "kahn_inv T adjList (fst st) (snd st) (result @ [current])"
    by (rule kahn_step [OF "2.prems"(1) "2.prems"(2) "2.prems"(3) st_def])
  from "2.IH" [OF st_def "2.prems"(1) "2.prems"(2) this]
  show ?case by (simp add: st_def Let_def)
qed


subsection \<open>Parents before children\<close>

fun appears_before :: "string \<Rightarrow> string \<Rightarrow> string list \<Rightarrow> bool" where
  "appears_before x y [] = False"
| "appears_before x y (z # zs) = (if z = x then y \<in> set zs else appears_before x y zs)"

lemma appears_before_append: "p \<in> set ys \<Longrightarrow> appears_before p c (ys @ c # zs)"
  by (induction ys) auto

lemma TopologicalSort_unfold:
  "TopologicalSort g tables =
     (let st = built g tables;
          queue = sort (filter (\<lambda>table. get_count (snd st) table = 0) tables);
          r = kahn (fst st) (snd st) queue []
      in if length (snd r) \<noteq> length tables
         then Inl (CycleInTableDependencies
                     (sort (filter (\<lambda>table. 0 < get_count (fst r) table) (keys_of (fst r)))))
         else Inr (snd r))"
  by (simp add: TopologicalSort_def built_def Let_def split: prod.splits)

lemma built_pending:
  "int (pending (set tables) (fst (built g tables)) [] c) = get_count (snd (built g tables)) c"
proof -
  have "pending (set tables) (fst (built g tables)) [] c =
        (\<Sum>p\<in>set tables. count_list tables c * edge_count g tables p c)"
    by (simp add: pending_def built_adj)
  also have "\<dots> = count_list tables c * (\<Sum>p\<in>set tables. edge_count g tables p c)"
    by (simp add: sum_distrib_left)
  also have "\<dots> = count_list tables c * parent_count g tables c"
    by (simp add: sum_edge_count)
  finally show ?thesis by (simp add: built_count)
qed

lemma built_kahn_inv:
  assumes "distinct tables"
  shows "kahn_inv (set tables) (fst (built g tables)) (snd (built g tables))
           (sort (filter (\<lambda>table. get_count (snd (built g tables)) table = 0) tables)) []"
  unfolding kahn_inv_def settled_def parents_first_def
  using assms by (auto simp: built_pending)

lemma built_edge:
  assumes "child \<in> set tables" "fk \<in> set (GetParents g child)"
    "ParentTable fk \<in> set tables" "ParentTable fk \<noteq> child"
  shows "child \<in> set (slice_at (fst (built g tables)) (ParentTable fk))"
proof -
  have "fk \<in> set (filter (\<lambda>fk'. qualifies tables child fk' \<and> ParentTable fk' = ParentTable fk)
                     (GetParents g child))"
    using assms by (simp add: qualifies_def)
  then have "filter (\<lambda>fk'. qualifies tables child fk' \<and> ParentTable fk' = ParentTable fk)
                     (GetParents g child) \<noteq> []"
    by (metis empty_iff list.set(1))
  then have "0 < edge_count g tables (ParentTable fk) child"
    unfolding edge_count_def by simp
  moreover have "0 < count_list tables child"
    using assms(1) by (simp only: count_list_pos_iff)
  ultimately have "0 < count_list (slice_at (fst (built g tables)) (ParentTable fk)) child"
    by (simp add: built_adj)
  then show ?thesis by (simp only: count_list_pos_iff)
qed

text \<open>
  C1.  For a duplicate-free list of tables (the keys of the data map) on which
  \<open>TopologicalSort\<close> succeeds, the returned sequence is a permutation of the input, and
  for every foreign key held by a table of the input (an entry of \<open>Parents[child]\<close>)
  whose parent table is in the input and is not the child itself, the parent table
  appears before the child in the returned sequence.
\<close>

theorem TopologicalSort_parents_first:
  assumes "distinct tables" and "TopologicalSort g tables = Inr ordered"
  shows "mset ordered = mset tables \<and>
         (\<forall>child \<in> set tables. \<forall>fk \<in> set (GetParents g child).
            ParentTable fk \<in> set tables \<and> ParentTable fk \<noteq> child \<longrightarrow>
            appears_before (ParentTable fk) child ordered)"
proof -
  define adj where "adj = fst (built g tables)"
  define ind where "ind = snd (built g tables)"
  define queue where "queue = sort (filter (\<lambda>table. get_count ind table = 0) tables)"
  from assms(2) have len: "length ordered = length tables"
    and res: "ordered = snd (kahn adj ind queue [])"
    unfolding TopologicalSort_unfold adj_def ind_def queue_def
    by (auto simp: Let_def split: if_splits)
  have inv: "kahn_inv (set tables) adj ind queue []"
    unfolding adj_def ind_def queue_def by (rule built_kahn_inv [OF assms(1)])
  have adj_sub: "\<forall>p. set (slice_at adj p) \<subseteq> set tables"
    unfolding adj_def by (simp add: built_adj_subset)
  have k: "distinct ordered \<and> set ordered \<subseteq> set tables \<and> parents_first adj (set tables) ordered"
    unfolding res by (rule kahn_result [OF _ adj_sub inv]) simp
  then have d: "distinct ordered" and sub: "set ordered \<subseteq> set tables"
    and pf: "parents_first adj (set tables) ordered" by auto
  have "card (set ordered) = card (set tables)"
    using d assms(1) len by (simp add: distinct_card)
  then have seteq: "set ordered = set tables"
    using sub by (simp add: card_subset_eq)
  then have perm: "mset ordered = mset tables"
    using d assms(1) by (simp add: set_eq_iff_mset_eq_distinct)
  have order: "appears_before (ParentTable fk) child ordered"
    if c: "child \<in> set tables" and f: "fk \<in> set (GetParents g child)"
      and p: "ParentTable fk \<in> set tables" and ne: "ParentTable fk \<noteq> child" for child fk
  proof -
    have e: "child \<in> set (slice_at adj (ParentTable fk))"
      unfolding adj_def by (rule built_edge [OF c f p ne])
    from c seteq have "child \<in> set ordered" by simp
    then obtain i where i: "i < length ordered" and ci: "ordered ! i = child"
      unfolding in_set_conv_nth by blast
    have "ParentTable fk \<in> set (take i ordered)"
      using pf i p e ci unfolding parents_first_def by blast
    moreover have "ordered = take i ordered @ child # drop (Suc i) ordered"
      using id_take_nth_drop [OF i] ci by simp
    ultimately show ?thesis using appears_before_append by metis
  qed
  show ?thesis using perm order by blast
qed

theorem TopologicalSort_parents_first_witness:
  "distinct [''tasks'', ''users'', ''projects'', ''organizations''] \<and>
   TopologicalSort org_graph [''tasks'', ''users'', ''projects'', ''organizations''] =
     Inr [''organizations'', ''projects'', ''users'', ''tasks''] \<and>
   mset [''organizations'', ''projects'', ''users'', ''tasks''] =
     mset [''tasks'', ''users'', ''projects'', ''organizations''] \<and>
   appears_before ''organizations'' ''users'' [''organizations'', ''projects'', ''users'', ''tasks''] \<and>
   appears_before ''users'' ''tasks'' [''organizations'', ''projects'', ''users'', ''tasks'']"
proof -
  let ?tables = "[''tasks'', ''users'', ''projects'', ''organizations'']"
  let ?sorted = "[''organizations'', ''projects'', ''users'', ''tasks'']"
  let ?fk1 = "\<lparr>ChildTable = ''users'', ChildColumn = ''org_id'',
               ParentTable = ''organizations'', ParentColumn = ''id''\<rparr>"
  let ?fk2 = "\<lparr>ChildTable = ''tasks'', ChildColumn = ''assigned_to'',
               ParentTable = ''users'', ParentColumn = ''id''\<rparr>"
  have d: "distinct ?tables" by simp
  have e: "TopologicalSort org_graph ?tables = Inr ?sorted" by code_simp
  have f1: "?fk1 \<in> set (GetParents org_graph ''users'')"
    by (simp add: GetParents_def org_graph_def slice_at_def)
  have f2: "?fk2 \<in> set (GetParents org_graph ''tasks'')"
    by (simp add: GetParents_def org_graph_def slice_at_def)
  note t = TopologicalSort_parents_first [OF d e]
  from t have "mset ?sorted = mset ?tables" by blast
  moreover from t f1 have "appears_before ''organizations'' ''users'' ?sorted" by fastforce
  moreover from t f2 have "appears_before ''users'' ''tasks'' ?sorted" by fastforce
  ultimately show ?thesis using d e by blast
qed

subsection \<open>Independence of the order of the input\<close>

lemma get_count_cong: "map_of m = map_of m' \<Longrightarrow> get_count m k = get_count m' k"
  by (simp add: get_count_def)

lemma relax_cong:
  assumes "map_of m = map_of m'"
  shows "snd (relax c (m, q)) = snd (relax c (m', q)) \<and>
         map_of (fst (relax c (m, q))) = map_of (fst (relax c (m', q)))"
  using assms get_count_cong [OF assms, of c]
  by (simp add: relax_def Let_def update_conv')

lemma fold_relax_cong:
  assumes "map_of (fst st) = map_of (fst st')" "snd st = snd st'"
  shows "snd (fold relax cs st) = snd (fold relax cs st') \<and>
         map_of (fst (fold relax cs st)) = map_of (fst (fold relax cs st'))"
  using assms
proof (induction cs arbitrary: st st')
  case Nil
  then show ?case by simp
next
  case (Cons c cs)
  obtain m q where st: "st = (m, q)" by (cases st)
  obtain m' q' where st': "st' = (m', q')" by (cases st')
  from Cons.prems have mm: "map_of m = map_of m'" and qq: "q = q'"
    by (simp_all add: st st')
  have "map_of (fst (relax c st)) = map_of (fst (relax c st'))"
    and "snd (relax c st) = snd (relax c st')"
    using relax_cong [OF mm, of c q] by (simp_all add: st st' qq)
  from Cons.IH [OF this] show ?case by simp
qed

lemma sort_cong_mset: "mset xs = mset ys \<Longrightarrow> sort xs = sort ys"
  by (metis sorted_list_of_multiset_mset)

lemma kahn_cong:
  assumes "\<forall>p. mset (slice_at adj p) = mset (slice_at adj' p)" "map_of ind = map_of ind'"
  shows "snd (kahn adj ind queue result) = snd (kahn adj' ind' queue result) \<and>
         map_of (fst (kahn adj ind queue result)) = map_of (fst (kahn adj' ind' queue result))"
  using assms
proof (induction adj ind queue result arbitrary: ind' rule: kahn.induct)
  case (1 adjList inDegree result)
  then show ?case by simp
next
  case (2 adjList inDegree current queue result)
  define st where "st = relax_children (slice_at adjList current) (inDegree, queue)"
  define st' where "st' = relax_children (slice_at adj' current) (ind', queue)"
  have srt: "sort (slice_at adjList current) = sort (slice_at adj' current)"
    using "2.prems"(1) by (intro sort_cong_mset) simp
  have c: "snd st = snd st' \<and> map_of (fst st) = map_of (fst st')"
    unfolding st_def st'_def relax_children_def srt
    by (rule fold_relax_cong) (simp_all add: "2.prems"(2))
  from "2.IH" [OF st_def "2.prems"(1), of "fst st'"] c
  show ?case by (simp add: st_def [symmetric] st'_def [symmetric] Let_def)
qed

lemma map_of_eqI_count:
  assumes "dom (map_of m) = dom (map_of m')" "\<And>k. get_count m k = get_count m' k"
  shows "map_of m = map_of m'"
proof
  fix k
  show "map_of m k = map_of m' k"
  proof (cases "map_of m k")
    case None
    then have "k \<notin> dom (map_of m)" by (simp add: domIff)
    then have "k \<notin> dom (map_of m')" unfolding assms(1) .
    then have "map_of m' k = None" by (simp add: domIff)
    with None show ?thesis by simp
  next
    case (Some v)
    then have "k \<in> dom (map_of m)" by (simp add: domIff)
    then have "k \<in> dom (map_of m')" unfolding assms(1) .
    then obtain v' where v': "map_of m' k = Some v'" by (auto simp: domIff)
    with Some assms(2) [of k] show ?thesis by (simp add: get_count_def)
  qed
qed

lemma count_list_cong_mset: "mset xs = mset ys \<Longrightarrow> count_list xs c = count_list ys c"
  by (metis count_mset)

lemma built_cong:
  assumes "mset xs = mset ys"
  shows "(\<forall>p. mset (slice_at (fst (built g xs)) p) = mset (slice_at (fst (built g ys)) p)) \<and>
         map_of (snd (built g xs)) = map_of (snd (built g ys))"
proof -
  have seteq: "set xs = set ys" using assms by (rule mset_eq_setD)
  have q: "qualifies xs = qualifies ys"
    by (simp add: qualifies_def fun_eq_iff seteq)
  have e: "edge_count g xs = edge_count g ys" and pc: "parent_count g xs = parent_count g ys"
    by (simp_all add: edge_count_def parent_count_def fun_eq_iff q)
  have cnt: "count_list xs c = count_list ys c" for c
    by (rule count_list_cong_mset [OF assms])
  have "mset (slice_at (fst (built g xs)) p) = mset (slice_at (fst (built g ys)) p)" for p
    by (rule multiset_eqI) (simp add: count_mset built_adj e cnt)
  moreover have "map_of (snd (built g xs)) = map_of (snd (built g ys))"
    by (rule map_of_eqI_count) (simp_all add: built_dom seteq built_count pc cnt)
  ultimately show ?thesis by blast
qed

lemma remaining_cong:
  assumes "map_of m = map_of m'"
  shows "sort (filter (\<lambda>table. 0 < get_count m table) (keys_of m)) =
         sort (filter (\<lambda>table. 0 < get_count m' table) (keys_of m'))"
proof -
  have g: "get_count m = get_count m'"
    using get_count_cong [OF assms] by (simp add: fun_eq_iff)
  have "fst ` set m = fst ` set m'"
    using assms by (metis dom_map_of_conv_image_fst)
  then have "set (filter (\<lambda>table. 0 < get_count m' table) (map fst m)) =
             set (filter (\<lambda>table. 0 < get_count m' table) (map fst m'))"
    by auto
  then have "sort (remdups (filter (\<lambda>table. 0 < get_count m' table) (map fst m))) =
             sort (remdups (filter (\<lambda>table. 0 < get_count m' table) (map fst m')))"
    by (simp only: sorted_list_of_set_sort_remdups [symmetric])
  then show ?thesis unfolding g keys_of_def by (simp only: remdups_filter)
qed

lemma TopologicalSort_mset:
  assumes "mset xs = mset ys"
  shows "TopologicalSort g xs = TopologicalSort g ys"
proof -
  note b = built_cong [OF assms, of g]
  have g: "get_count (snd (built g xs)) = get_count (snd (built g ys))"
    using b get_count_cong by (auto simp: fun_eq_iff)
  have "mset (filter (\<lambda>table. get_count (snd (built g ys)) table = 0) xs) =
        mset (filter (\<lambda>table. get_count (snd (built g ys)) table = 0) ys)"
    using assms by simp
  then have q: "sort (filter (\<lambda>table. get_count (snd (built g xs)) table = 0) xs) =
                sort (filter (\<lambda>table. get_count (snd (built g ys)) table = 0) ys)"
    unfolding g by (rule sort_cong_mset)
  have len: "length xs = length ys" using assms by (rule mset_eq_length)
  note k = kahn_cong [of "fst (built g xs)" "fst (built g ys)" "snd (built g xs)" "snd (built g ys)"
      "sort (filter (\<lambda>table. get_count (snd (built g ys)) table = 0) ys)" "[]"]
  from b k have k1: "snd (kahn (fst (built g xs)) (snd (built g xs))
                 (sort (filter (\<lambda>table. get_count (snd (built g ys)) table = 0) ys)) []) =
               snd (kahn (fst (built g ys)) (snd (built g ys))
                 (sort (filter (\<lambda>table. get_count (snd (built g ys)) table = 0) ys)) [])"
    and k2: "map_of (fst (kahn (fst (built g xs)) (snd (built g xs))
                 (sort (filter (\<lambda>table. get_count (snd (built g ys)) table = 0) ys)) [])) =
               map_of (fst (kahn (fst (built g ys)) (snd (built g ys))
                 (sort (filter (\<lambda>table. get_count (snd (built g ys)) table = 0) ys)) []))"
    by blast+
  show ?thesis
    unfolding TopologicalSort_unfold Let_def q len k1 remaining_cong [OF k2] ..
qed

text \<open>
  C9.  \<open>TopologicalSort\<close> is deterministic in its input set: two duplicate-free lists
  with the same elements, in any order, give the same result on the same graph (the same
  sequence, or the same error with the same list of remaining tables).  The result is
  thus a function of the input set and the graph, and since \<open>TopologicalSort\<close> is a
  total function of the model, it always returns.  (\<open>TopologicalSort_mset\<close> above is the
  same statement for any two lists with the same elements with the same multiplicities.)
\<close>

theorem TopologicalSort_deterministic:
  assumes "distinct xs" "distinct ys" "set xs = set ys"
  shows "TopologicalSort g xs = TopologicalSort g ys"
proof -
  have "mset xs = mset ys"
    using assms by (simp add: set_eq_iff_mset_eq_distinct)
  then show ?thesis by (rule TopologicalSort_mset)
qed

theorem TopologicalSort_deterministic_witness:
  "distinct [''tasks'', ''users'', ''projects'', ''organizations''] \<and>
   distinct [''organizations'', ''tasks'', ''projects'', ''users''] \<and>
   set [''tasks'', ''users'', ''projects'', ''organizations''] =
     set [''organizations'', ''tasks'', ''projects'', ''users''] \<and>
   TopologicalSort org_graph [''tasks'', ''users'', ''projects'', ''organizations''] =
     TopologicalSort org_graph [''organizations'', ''tasks'', ''projects'', ''users''] \<and>
   TopologicalSort org_graph [''organizations'', ''tasks'', ''projects'', ''users''] =
     Inr [''organizations'', ''projects'', ''users'', ''tasks'']"
proof -
  have d1: "distinct [''tasks'', ''users'', ''projects'', ''organizations'']" by simp
  have d2: "distinct [''organizations'', ''tasks'', ''projects'', ''users'']" by simp
  have s: "set [''tasks'', ''users'', ''projects'', ''organizations''] =
           set [''organizations'', ''tasks'', ''projects'', ''users'']" by auto
  have e: "TopologicalSort org_graph [''organizations'', ''tasks'', ''projects'', ''users''] =
     Inr [''organizations'', ''projects'', ''users'', ''tasks'']" by code_simp
  from TopologicalSort_deterministic [OF d1 d2 s, of org_graph] d1 d2 s e
  show ?thesis by blast
qed


section \<open>The JSON writer (JSONWriter.Write)\<close>

text \<open>
  \<open>row_val\<close> reads a column of a row map (an absent column reads as \<open>nil\<close>).  The rows
  of a table are sorted by the text renderings of their primary-key columns, compared
  column by column; \<open>sort.Slice\<close> does not say in which order it leaves rows with equal
  keys, the model keeps them in their order.  \<open>GetAllTables\<close> lists the keys of
  \<open>TableData\<close> in an order that Go does not specify: the writer takes that list as the
  argument \<open>tables\<close>.  The result is the map \<open>result\<close> handed to the JSON encoder.
\<close>

definition row_val :: "row \<Rightarrow> string \<Rightarrow> val" where
  "row_val r col = (case r col of None \<Rightarrow> VNull | Some v \<Rightarrow> v)"

definition sort_rows_by_pk :: "string list \<Rightarrow> row list \<Rightarrow> row list" where
  "sort_rows_by_pk pkColumns rows =
     sort_key (\<lambda>r. map (\<lambda>pkCol. show_val (row_val r pkCol)) pkColumns) rows"

datatype write_error = SortFailed graph_error

definition json_table ::
  "Graph \<Rightarrow> TraversalState \<Rightarrow> string \<Rightarrow> (string \<times> row list) list \<Rightarrow> (string \<times> row list) list" where
  "json_table g s tableName result =
     (let rows = data_of s tableName
      in if length rows = 0 then AList.update tableName [] result
         else AList.update tableName (sort_rows_by_pk (GetPrimaryKeyColumns g tableName) rows) result)"

definition JSONWriter_Write ::
  "Graph \<Rightarrow> string list \<Rightarrow> TraversalState \<Rightarrow> write_error + (string \<times> row list) list" where
  "JSONWriter_Write g tables s =
     (case TopologicalSort g tables of
        Inl e \<Rightarrow> Inl (SortFailed e)
      | Inr sortedTables \<Rightarrow> Inr (fold (json_table g s) sortedTables []))"

section \<open>The states of a traversal\<close>

text \<open>
  \<open>Extract\<close> and the functions it calls (\<open>executeRootQuery\<close>, \<open>traverseParents\<close>,
  \<open>traverseChildren\<close>, \<open>fetchParentRows\<close>, \<open>fetchChildRows\<close>, \<open>fetchRowsByPK\<close>,
  \<open>fetchRowsByFK\<close>) change the traversal state only by calling \<open>processRows\<close> and
  \<open>processRowsWithJSONBInfo\<close>.  The states an extraction passes through are therefore
  among those reached from the new state by any sequence of such calls, whatever their
  arguments and whether they fail or not.
\<close>

inductive traversal_state :: "Graph \<Rightarrow> TraversalOptions \<Rightarrow> TraversalState \<Rightarrow> bool"
  for g :: Graph and opts :: TraversalOptions where
  start: "traversal_state g opts NewTraversalState"
| rows: "traversal_state g opts s \<Longrightarrow> processRows g opts rs tableName s = (e, s') \<Longrightarrow>
         traversal_state g opts s'"
| rows_jsonb: "traversal_state g opts s \<Longrightarrow>
         processRowsWithJSONBInfo g opts rs tableName jsonbCols s = (e, s') \<Longrightarrow>
         traversal_state g opts s'"

definition no_empty_table :: "TraversalState \<Rightarrow> bool" where
  "no_empty_table s \<longleftrightarrow> (\<forall>tableName rows. TableData s tableName = Some rows \<longrightarrow> rows \<noteq> [])"

lemma rows_loop_TableData:
  "TableData (fst (snd (rows_loop pk t opts fn items s new))) = TableData s"
proof (induction items arbitrary: s new)
  case Nil
  show ?case by simp
next
  case (Cons item items)
  show ?case
    by (simp add: Cons.IH Let_def split: option.splits sum.splits)
qed

lemma processRows_unfold:
  assumes "rows_loop (GetPrimaryKeyColumns g t) t opts (FieldDescriptions rs) (Items rs)
             (init_visited t s) [] = (e1, s1, new)"
  shows "processRows g opts rs t s =
           (case e1 of Some e \<Rightarrow> (Some e, s1)
            | None \<Rightarrow> (if Err rs then Some RowsError else None, append_rows t new s1))"
  using assms by (simp add: processRows_def Let_def split: option.splits)

lemma set_AList_update: "set (AList.update k v al) \<subseteq> insert (k, v) (set al)"
  by (induction al) auto

lemma processRows_no_empty_table:
  assumes "no_empty_table s" "processRows g opts rs t s = (e, s')"
  shows "no_empty_table s'"
proof -
  define r where "r = rows_loop (GetPrimaryKeyColumns g t) t opts (FieldDescriptions rs) (Items rs)
                        (init_visited t s) []"
  obtain e1 s1 new where r: "r = (e1, s1, new)" by (cases r)
  have td: "TableData s1 = TableData s"
    using rows_loop_TableData [of "GetPrimaryKeyColumns g t" t opts "FieldDescriptions rs" "Items rs"
        "init_visited t s" "[]"] r unfolding r_def by simp
  show ?thesis
  proof (cases e1)
    case (Some err)
    then have "s' = s1" using assms(2) processRows_unfold [OF r [unfolded r_def]] by simp
    then show ?thesis using assms(1) td by (simp add: no_empty_table_def)
  next
    case None
    then have "s' = append_rows t new s1"
      using assms(2) processRows_unfold [OF r [unfolded r_def]] by simp
    then have td': "TableData s' =
        (if new \<noteq> [] then (TableData s)(t \<mapsto> data_of s1 t @ new) else TableData s)"
      using td by (simp add: append_rows_def)
    show ?thesis unfolding no_empty_table_def
    proof (intro allI impI)
      fix tableName rows
      assume a: "TableData s' tableName = Some rows"
      show "rows \<noteq> []"
      proof (cases "new \<noteq> [] \<and> tableName = t")
        case True
        then have "rows = data_of s1 t @ new" using a td' by simp
        then show ?thesis using True by simp
      next
        case False
        then have "TableData s tableName = Some rows" using a td' by (auto split: if_splits)
        then show ?thesis using assms(1) unfolding no_empty_table_def by blast
      qed
    qed
  qed
qed

lemma traversal_state_no_empty_table:
  "traversal_state g opts s \<Longrightarrow> no_empty_table s"
proof (induction rule: traversal_state.induct)
  case start
  show ?case by (simp add: no_empty_table_def NewTraversalState_def)
next
  case (rows s rs tableName e s')
  then show ?case by (blast intro: processRows_no_empty_table)
next
  case (rows_jsonb s rs tableName jsonbCols e s')
  then show ?case unfolding processRows_JSONB_eq by (blast intro: processRows_no_empty_table)
qed

lemma kahn_subset:
  "set (snd (kahn adj ind queue result)) \<subseteq> set queue \<union> set result \<union> (\<Union>p. set (slice_at adj p))"
proof (induction adj ind queue result rule: kahn.induct)
  case (1 adjList inDegree result)
  show ?case by simp
next
  case (2 adjList inDegree current queue result)
  define st where "st = relax_children (slice_at adjList current) (inDegree, queue)"
  have "set (snd st) \<subseteq> set (sort (slice_at adjList current)) \<union> set queue"
    unfolding st_def relax_children_def
    using fold_relax_queue_subset [of "sort (slice_at adjList current)" "(inDegree, queue)"] by simp
  then have "set (snd st) \<subseteq> set queue \<union> (\<Union>p. set (slice_at adjList p))" by auto
  with "2.IH" [OF st_def] show ?case
    by (simp add: st_def [symmetric] Let_def) blast
qed

lemma TopologicalSort_subset:
  assumes "TopologicalSort g tables = Inr ordered"
  shows "set ordered \<subseteq> set tables"
proof -
  have "ordered = snd (kahn (fst (built g tables)) (snd (built g tables))
          (sort (filter (\<lambda>table. get_count (snd (built g tables)) table = 0) tables)) [])"
    using assms unfolding TopologicalSort_unfold by (auto simp: Let_def split: if_splits)
  then show ?thesis
    using kahn_subset [of "fst (built g tables)" "snd (built g tables)"
        "sort (filter (\<lambda>table. get_count (snd (built g tables)) table = 0) tables)" "[]"]
      built_adj_subset [of g tables]
    by auto
qed

lemma fold_json_table_nonempty:
  assumes "\<forall>t \<in> set ts. data_of s t \<noteq> []" "\<forall>(t, rows) \<in> set result. rows \<noteq> []"
  shows "\<forall>(t, rows) \<in> set (fold (json_table g s) ts result). rows \<noteq> []"
  using assms
proof (induction ts arbitrary: result)
  case Nil
  then show ?case by simp
next
  case (Cons t ts)
  have ne: "data_of s t \<noteq> []" using Cons.prems(1) by simp
  have len: "length (sort_rows_by_pk pk (data_of s t)) = length (data_of s t)" for pk
    by (simp add: sort_rows_by_pk_def)
  have sne: "sort_rows_by_pk pk (data_of s t) \<noteq> []" for pk
    using ne len [of pk] by (metis length_0_conv)
  have "set (json_table g s t result) \<subseteq>
          insert (t, sort_rows_by_pk (GetPrimaryKeyColumns g t) (data_of s t)) (set result)"
    using ne by (simp add: json_table_def Let_def set_AList_update)
  then have "\<forall>(t', rows) \<in> set (json_table g s t result). rows \<noteq> []"
    using Cons.prems(2) sne [of "GetPrimaryKeyColumns g t"] by auto
  moreover have "\<forall>t \<in> set ts. data_of s t \<noteq> []" using Cons.prems(1) by simp
  ultimately have "\<forall>(t', rows) \<in> set (fold (json_table g s) ts (json_table g s t result)). rows \<noteq> []"
    by (rule Cons.IH [rotated])
  then show ?case by simp
qed


lemma run_root_traversal_state:
  assumes "traversal_state g opts s"
    and "run_root db g opts q baseTable hasJSONB jsonbCols sent s = (e, s', sent')"
  shows "traversal_state g opts s'"
proof (cases "run_query db q []")
  case None
  then show ?thesis using assms by (simp add: run_root_def)
next
  case (Some rs)
  show ?thesis
  proof (cases hasJSONB)
    case True
    then have "processRowsWithJSONBInfo g opts rs baseTable jsonbCols s = (e, s')"
      using assms(2) Some by (simp add: run_root_def split: prod.splits)
    then show ?thesis by (rule traversal_state.rows_jsonb [OF assms(1)])
  next
    case False
    then have "processRows g opts rs baseTable s = (e, s')"
      using assms(2) Some by (simp add: run_root_def split: prod.splits)
    then show ?thesis by (rule traversal_state.rows [OF assms(1)])
  qed
qed

lemma executeRootQuery_traversal_state:
  assumes "traversal_state g opts s"
    and "executeRootQuery uni db g opts queryInfo s = (e, s', sent)"
  shows "traversal_state g opts s'"
  using assms unfolding executeRootQuery_def Let_def
  by (auto split: option.splits if_splits intro: run_root_traversal_state)

lemma fetch_rows_traversal_state:
  assumes "traversal_state g opts s"
    and "fetch_rows db g opts tableName whereColumn orderColumn vs s = (e, s', sent)"
  shows "traversal_state g opts s'"
  using assms unfolding fetch_rows_def Let_def
  by (auto split: option.splits if_splits prod.splits intro: traversal_state.rows_jsonb)

text \<open>
  C10.  In every state of a traversal, a table with an entry in \<open>TableData\<close> has at
  least one row.  Hence, when the JSON writer runs on such a state with the keys of
  \<open>TableData\<close> as its tables, the test \<open>len(rows) == 0\<close> fails for every table of the
  sorted order (the zero-row branch is not taken), and no table of the written map has an
  empty row array.
\<close>

theorem extraction_tables_nonempty:
  assumes "traversal_state g opts s" and "set tables = dom (TableData s)"
  shows "(\<forall>tableName rows. TableData s tableName = Some rows \<longrightarrow> rows \<noteq> []) \<and>
         (\<forall>sortedTables. TopologicalSort g tables = Inr sortedTables \<longrightarrow>
            (\<forall>tableName \<in> set sortedTables. length (data_of s tableName) \<noteq> 0)) \<and>
         (\<forall>result. JSONWriter_Write g tables s = Inr result \<longrightarrow>
            (\<forall>(tableName, rows) \<in> set result. rows \<noteq> []))"
proof -
  have ne: "no_empty_table s" by (rule traversal_state_no_empty_table [OF assms(1)])
  have data: "data_of s tableName \<noteq> []" if "tableName \<in> set tables" for tableName
  proof -
    from that assms(2) obtain rows where r: "TableData s tableName = Some rows" by auto
    then have "rows \<noteq> []" using ne unfolding no_empty_table_def by blast
    then show ?thesis using r by (simp add: data_of_def)
  qed
  have branch: "\<forall>tableName \<in> set sortedTables. data_of s tableName \<noteq> []"
    if "TopologicalSort g tables = Inr sortedTables" for sortedTables
    using TopologicalSort_subset [OF that] data by blast
  have out: "\<forall>(tableName, rows) \<in> set result. rows \<noteq> []"
    if w: "JSONWriter_Write g tables s = Inr result" for result
  proof -
    from w obtain sortedTables where t: "TopologicalSort g tables = Inr sortedTables"
      and r: "result = fold (json_table g s) sortedTables []"
      unfolding JSONWriter_Write_def by (auto split: sum.splits)
    show ?thesis unfolding r
      by (rule fold_json_table_nonempty [OF branch [OF t]]) simp
  qed
  from ne branch out show ?thesis
    unfolding no_empty_table_def by (simp only: length_0_conv) blast
qed

definition two_users_state :: TraversalState where
  "two_users_state = snd (processRows users_graph cap2 two_users ''users'' NewTraversalState)"

lemma two_users_state_eq:
  "two_users_state =
     \<lparr>VisitedRows = [''users'' \<mapsto> {VInt32 1, VInt32 2}],
      TableData = [''users'' \<mapsto> [[''id'' \<mapsto> VInt32 1, ''name'' \<mapsto> VText ''a''],
                                   [''id'' \<mapsto> VInt32 2, ''name'' \<mapsto> VText ''b'']]],
      RowCount = 2\<rparr>"
  by (simp add: two_users_state_def processRows_def users_graph_def two_users_def
      GetPrimaryKeyColumns_def slice_at_def NewTraversalState_def init_visited_def row_key_def
      pkValues_of_def pkKey_of_def visited_of_def cap2_def append_rows_def data_of_def
      rowMap_of_def Let_def insert_commute word_sless_alt)

theorem extraction_tables_nonempty_witness:
  "traversal_state users_graph cap2 two_users_state \<and>
   set [''users''] = dom (TableData two_users_state) \<and>
   TopologicalSort users_graph [''users''] = Inr [''users''] \<and>
   length (data_of two_users_state ''users'') = 2 \<and>
   length (data_of two_users_state ''users'') \<noteq> 0"
proof -
  have ts: "traversal_state users_graph cap2 two_users_state"
    unfolding two_users_state_def
    by (rule traversal_state.rows [OF traversal_state.start]) (rule surjective_pairing)
  have d: "set [''users''] = dom (TableData two_users_state)"
    by (simp add: two_users_state_eq)
  have t: "TopologicalSort users_graph [''users''] = Inr [''users'']"
    by code_simp
  have l: "length (data_of two_users_state ''users'') = 2"
    by (simp add: two_users_state_eq data_of_def)
  from extraction_tables_nonempty [OF ts d] t
  have "length (data_of two_users_state ''users'') \<noteq> 0" by fastforce
  with ts d t l show ?thesis by blast
qed


section \<open>Deduplication by primary key\<close>

text \<open>
  The primary-key identity of a row, as the specification has it: the value of the key
  column when the key has a single column, else a rendering of the tuple of the row's key
  values.  The tuple lists the values in the order of the key's columns
  (\<open>GetPrimaryKeyColumns\<close>), and it is rendered as \<open>%v\<close> renders a slice.  The identity
  depends on the row and on the key only.
\<close>

definition pk_identity :: "Graph \<Rightarrow> string \<Rightarrow> row \<Rightarrow> val" where
  "pk_identity g tableName r =
     (case GetPrimaryKeyColumns g tableName of
        [c] \<Rightarrow> row_val r c
      | cs \<Rightarrow> VText (show_vals (map (row_val r) cs)))"

text \<open>
  A schema with a composite key.  Table \<open>memberships (org_id integer, user_id integer)\<close>
  has the primary key \<open>(org_id, user_id)\<close>; table \<open>membership_roles (id integer,
  org_id integer, user_id integer)\<close> has the primary key \<open>id\<close> and a foreign key
  \<open>(org_id, user_id)\<close> referencing \<open>memberships\<close>.  \<open>extractForeignKeys\<close> joins the
  columns of both sides of a constraint, so the two-column foreign key arrives as four
  single-column ones.  The database holds the membership \<open>(1, 5)\<close> and the role
  \<open>(10, 1, 5)\<close>.
\<close>

definition roles_graph :: Graph where
  "roles_graph =
     (let fks = [mk_fk ''membership_roles'' ''org_id'' ''memberships'' ''org_id'',
                 mk_fk ''membership_roles'' ''org_id'' ''memberships'' ''user_id'',
                 mk_fk ''membership_roles'' ''user_id'' ''memberships'' ''org_id'',
                 mk_fk ''membership_roles'' ''user_id'' ''memberships'' ''user_id'']
      in \<lparr>Parents = [(''membership_roles'', fks)],
          Children = [(''memberships'', fks)],
          PrimaryKey = [(''membership_roles'', [''id'']),
                        (''memberships'', [''org_id'', ''user_id''])]\<rparr>)"

text \<open>
  The answers of the database to the statements of an extraction that starts from the
  root query \<open>SELECT user_id, org_id FROM memberships\<close>, which lists \<open>user_id\<close> first:
  the catalog query for the columns of the two tables, the root query, the fetches of
  the roles by \<open>org_id\<close> and by \<open>user_id\<close>, and the fetches of the memberships by
  \<open>org_id\<close> and by \<open>user_id\<close>.  The values in the \<open>IN\<close> lists are those of the rows
  found so far.  The root query and the fetch of the memberships of organisation 1
  return the same row, their columns in different orders.
\<close>

definition roles_db :: SourceDB where
  "roles_db =
     \<lparr>column_info = (\<lambda>t.
        if t = ''memberships''
        then Some [Some (''org_id'', ''integer''), Some (''user_id'', ''integer'')]
        else if t = ''membership_roles''
        then Some [Some (''id'', ''integer''), Some (''org_id'', ''integer''),
                   Some (''user_id'', ''integer'')]
        else Some []),
      run_query = (\<lambda>q args.
        if q = ''SELECT user_id, org_id FROM memberships'' \<and> args = []
        then Some \<lparr>FieldDescriptions = [''user_id'', ''org_id''],
                    Items = [Some [VInt32 5, VInt32 1]], Err = False\<rparr>
        else if q = ''SELECT id, org_id, user_id FROM membership_roles WHERE org_id IN ($1) ORDER BY id''
                \<and> args = [VInt32 1]
        then Some \<lparr>FieldDescriptions = [''id'', ''org_id'', ''user_id''],
                    Items = [Some [VInt32 10, VInt32 1, VInt32 5]], Err = False\<rparr>
        else if q = ''SELECT id, org_id, user_id FROM membership_roles WHERE user_id IN ($1) ORDER BY id''
                \<and> args = [VInt32 1]
        then Some \<lparr>FieldDescriptions = [''id'', ''org_id'', ''user_id''], Items = [], Err = False\<rparr>
        else if q = ''SELECT org_id, user_id FROM memberships WHERE org_id IN ($1) ORDER BY org_id''
                \<and> args = [VInt32 1]
        then Some \<lparr>FieldDescriptions = [''org_id'', ''user_id''],
                    Items = [Some [VInt32 1, VInt32 5]], Err = False\<rparr>
        else if q = ''SELECT org_id, user_id FROM memberships WHERE user_id IN ($1) ORDER BY user_id''
                \<and> args = [VInt32 1]
        then Some \<lparr>FieldDescriptions = [''org_id'', ''user_id''], Items = [], Err = False\<rparr>
        else None)\<rparr>"

definition roles_root :: QueryInfo where
  "roles_root = \<lparr>Query = ''SELECT user_id, org_id FROM memberships'', BaseTable = ''memberships''\<rparr>"

definition default_options :: TraversalOptions where
  "default_options = \<lparr>ParentsOnly = False, ChildrenOnly = False, SelectedChildren = [],
                       MaxRows = 10000, Force = False, Verbose = False\<rparr>"

definition membership_1_5 :: row where
  "membership_1_5 = [''user_id'' \<mapsto> VInt32 5, ''org_id'' \<mapsto> VInt32 1]"

definition role_10 :: row where
  "role_10 = [''id'' \<mapsto> VInt32 10, ''org_id'' \<mapsto> VInt32 1, ''user_id'' \<mapsto> VInt32 5]"

text \<open>
  The states of the run: after the root query, after the fetch of the roles of
  organisation 1 (\<open>fetchChildRows\<close>), and after the fetch of the memberships of
  organisation 1 (\<open>fetchParentRows\<close> for the role found).
\<close>

definition roles_state_1 :: TraversalState where
  "roles_state_1 =
     \<lparr>VisitedRows = [''memberships'' \<mapsto> {VText ''[5 1]''}],
      TableData = [''memberships'' \<mapsto> [membership_1_5]],
      RowCount = 1\<rparr>"

definition roles_state_2 :: TraversalState where
  "roles_state_2 =
     \<lparr>VisitedRows = [''memberships'' \<mapsto> {VText ''[5 1]''}, ''membership_roles'' \<mapsto> {VInt32 10}],
      TableData = [''memberships'' \<mapsto> [membership_1_5], ''membership_roles'' \<mapsto> [role_10]],
      RowCount = 2\<rparr>"

definition roles_state_3 :: TraversalState where
  "roles_state_3 =
     \<lparr>VisitedRows = [''membership_roles'' \<mapsto> {VInt32 10},
                     ''memberships'' \<mapsto> {VText ''[1 5]'', VText ''[5 1]''}],
      TableData = [''membership_roles'' \<mapsto> [role_10],
                   ''memberships'' \<mapsto> [membership_1_5, membership_1_5]],
      RowCount = 3\<rparr>"

lemma show_vals_5_1: "show_vals [VInt32 5, VInt32 1] = ''[5 1]''"
  by code_simp

lemma show_vals_1_5: "show_vals [VInt32 1, VInt32 5] = ''[1 5]''"
  by code_simp

lemma show_nat_1: "show_nat (Suc 0) = ''1''"
  by code_simp

lemma membership_other_order:
  "[''org_id'' \<mapsto> VInt32 1, ''user_id'' \<mapsto> VInt32 5] = membership_1_5"
  unfolding membership_1_5_def by (rule fun_upd_twist) simp

text \<open>
  Between these steps the extraction sends fetches that change nothing: the role is
  fetched once for each of the two foreign keys on \<open>org_id\<close> and is a duplicate the second
  time, and no role has \<open>user_id\<close> 1 and no membership has \<open>user_id\<close> 1 (the values passed
  are those of the first key column, \<open>org_id\<close>).
\<close>

lemmas roles_run =
  executeRootQuery_def run_root_def fetchRowsByPK_def fetchRowsByFK_def fetch_rows_def
  processRows_def processRowsWithJSONBInfo_def roles_db_def roles_graph_def roles_root_def
  GetPrimaryKeyColumns_def GetPrimaryKey_def slice_at_def NewTraversalState_def init_visited_def
  row_key_def pkValues_of_def pkKey_of_def visited_of_def append_rows_def data_of_def rowMap_of_def
  Let_def jsonb_columns_def is_json_type_def fetch_select_cols_def
  fetch_query_def placeholders_of_def word_sless_alt
  show_vals_5_1 show_vals_1_5 show_nat_1 membership_other_order
  roles_state_1_def roles_state_2_def roles_state_3_def

lemma roles_idle_fetches:
  "fetchRowsByFK roles_db roles_graph opts ''membership_roles'' ''org_id'' [VInt32 1] roles_state_2 =
     (None, roles_state_2,
      [ColumnInfoQuery ''membership_roles'',
       DataQuery ''SELECT id, org_id, user_id FROM membership_roles WHERE org_id IN ($1) ORDER BY id''
         [VInt32 1]])"
  "fetchRowsByFK roles_db roles_graph opts ''membership_roles'' ''user_id'' [VInt32 1] roles_state_2 =
     (None, roles_state_2,
      [ColumnInfoQuery ''membership_roles'',
       DataQuery ''SELECT id, org_id, user_id FROM membership_roles WHERE user_id IN ($1) ORDER BY id''
         [VInt32 1]])"
  "fetchRowsByPK roles_db roles_graph opts ''memberships'' ''user_id'' [VInt32 1] roles_state_2 =
     (None, roles_state_2,
      [ColumnInfoQuery ''memberships'',
       DataQuery ''SELECT org_id, user_id FROM memberships WHERE user_id IN ($1) ORDER BY user_id''
         [VInt32 1]])"
  by (simp_all add: roles_run)

text \<open>
  C2.  The first invariant fails, and with it the deduplication.  The row processor
  builds the key of a row from the values of the key columns in the order in which the
  result set lists them, not in the order of the key.  After the root query above (a
  completed call, no error) the membership \<open>(1, 5)\<close> is stored, but \<open>visited\<close> holds
  \<open>[5 1]\<close>: the identity \<open>[1 5]\<close> of the stored row is not in \<open>visited\<close>.  When the
  traversal then comes back to \<open>memberships\<close> from the role it found, the fetch lists the
  columns in catalog order, the same row gets the key \<open>[1 5]\<close>, passes as new and is
  stored a second time.
\<close>

theorem composite_key_in_field_order:
  "executeRootQuery uni roles_db roles_graph default_options roles_root NewTraversalState =
     (None, roles_state_1,
      [ColumnInfoQuery ''memberships'', DataQuery ''SELECT user_id, org_id FROM memberships'' []]) \<and>
   data_of roles_state_1 ''memberships'' = [membership_1_5] \<and>
   visited_of roles_state_1 ''memberships'' = {VText ''[5 1]''} \<and>
   pk_identity roles_graph ''memberships'' membership_1_5 = VText ''[1 5]'' \<and>
   pk_identity roles_graph ''memberships'' membership_1_5 \<notin> visited_of roles_state_1 ''memberships'' \<and>
   fetchRowsByFK roles_db roles_graph default_options ''membership_roles'' ''org_id'' [VInt32 1]
       roles_state_1 =
     (None, roles_state_2,
      [ColumnInfoQuery ''membership_roles'',
       DataQuery ''SELECT id, org_id, user_id FROM membership_roles WHERE org_id IN ($1) ORDER BY id''
         [VInt32 1]]) \<and>
   fetchRowsByPK roles_db roles_graph default_options ''memberships'' ''org_id'' [VInt32 1]
       roles_state_2 =
     (None, roles_state_3,
      [ColumnInfoQuery ''memberships'',
       DataQuery ''SELECT org_id, user_id FROM memberships WHERE org_id IN ($1) ORDER BY org_id''
         [VInt32 1]]) \<and>
   data_of roles_state_3 ''memberships'' = [membership_1_5, membership_1_5] \<and>
   visited_of roles_state_3 ''memberships'' = {VText ''[1 5]'', VText ''[5 1]''}"
proof -
  have root: "executeRootQuery uni roles_db roles_graph default_options roles_root NewTraversalState =
     (None, roles_state_1,
      [ColumnInfoQuery ''memberships'', DataQuery ''SELECT user_id, org_id FROM memberships'' []])"
    by (simp add: roles_run default_options_def membership_1_5_def)
  have obs1: "data_of roles_state_1 ''memberships'' = [membership_1_5]"
    "visited_of roles_state_1 ''memberships'' = {VText ''[5 1]''}"
    by (simp_all add: roles_state_1_def data_of_def visited_of_def)
  have ident: "pk_identity roles_graph ''memberships'' membership_1_5 = VText ''[1 5]''"
    by (simp add: pk_identity_def roles_graph_def GetPrimaryKeyColumns_def slice_at_def Let_def
        row_val_def membership_1_5_def show_vals_1_5)
  have roles: "fetchRowsByFK roles_db roles_graph default_options ''membership_roles'' ''org_id''
       [VInt32 1] roles_state_1 =
     (None, roles_state_2,
      [ColumnInfoQuery ''membership_roles'',
       DataQuery ''SELECT id, org_id, user_id FROM membership_roles WHERE org_id IN ($1) ORDER BY id''
         [VInt32 1]])"
    by (simp add: roles_run default_options_def role_10_def)
  have again: "fetchRowsByPK roles_db roles_graph default_options ''memberships'' ''org_id''
       [VInt32 1] roles_state_2 =
     (None, roles_state_3,
      [ColumnInfoQuery ''memberships'',
       DataQuery ''SELECT org_id, user_id FROM memberships WHERE org_id IN ($1) ORDER BY org_id''
         [VInt32 1]])"
    by (simp add: roles_run default_options_def)
  have obs3: "data_of roles_state_3 ''memberships'' = [membership_1_5, membership_1_5]"
    "visited_of roles_state_3 ''memberships'' = {VText ''[1 5]'', VText ''[5 1]''}"
    by (simp_all add: roles_state_3_def data_of_def visited_of_def)
  have missing: "VText ''[1 5]'' \<notin> {VText ''[5 1]''}"
    by simp
  from root obs1 ident missing roles again obs3 show ?thesis
    by (simp only: simp_thms)
qed


section \<open>The row cap\<close>

text \<open>
  C3.  The cap is tested against \<open>RowCount\<close>, which is raised for every row that passes
  as new.  With a cap of two rows and without \<open>force\<close>, the run above has accumulated two
  distinct rows (the membership and its role) when it fetches the membership again;
  the row is the one already stored, but under its other key it passes as new, the
  count goes to three and the fetch fails with the row-limit error for a snapshot of
  exactly \<open>max_rows\<close> distinct rows.
\<close>

theorem row_limit_counts_refetched_row:
  "executeRootQuery uni roles_db roles_graph cap2 roles_root NewTraversalState =
     (None, roles_state_1,
      [ColumnInfoQuery ''memberships'', DataQuery ''SELECT user_id, org_id FROM memberships'' []]) \<and>
   fetchRowsByFK roles_db roles_graph cap2 ''membership_roles'' ''org_id'' [VInt32 1] roles_state_1 =
     (None, roles_state_2,
      [ColumnInfoQuery ''membership_roles'',
       DataQuery ''SELECT id, org_id, user_id FROM membership_roles WHERE org_id IN ($1) ORDER BY id''
         [VInt32 1]]) \<and>
   TableData roles_state_2 =
     [''memberships'' \<mapsto> [membership_1_5], ''membership_roles'' \<mapsto> [role_10]] \<and>
   RowCount roles_state_2 = 2 \<and> MaxRows cap2 = 2 \<and> \<not> Force cap2 \<and>
   run_query roles_db
       ''SELECT org_id, user_id FROM memberships WHERE org_id IN ($1) ORDER BY org_id'' [VInt32 1] =
     Some \<lparr>FieldDescriptions = [''org_id'', ''user_id''],
            Items = [Some [VInt32 1, VInt32 5]], Err = False\<rparr> \<and>
   rowMap_of [''org_id'', ''user_id''] [VInt32 1, VInt32 5] = membership_1_5 \<and>
   fst (fetchRowsByPK roles_db roles_graph cap2 ''memberships'' ''org_id'' [VInt32 1] roles_state_2) =
     Some (RowLimitExceeded 2) \<and>
   error_message (RowLimitExceeded 2) = ''row limit exceeded (2 rows). Use --force to override''"
proof -
  have root: "executeRootQuery uni roles_db roles_graph cap2 roles_root NewTraversalState =
     (None, roles_state_1,
      [ColumnInfoQuery ''memberships'', DataQuery ''SELECT user_id, org_id FROM memberships'' []])"
    by (simp add: roles_run cap2_def membership_1_5_def)
  have roles: "fetchRowsByFK roles_db roles_graph cap2 ''membership_roles'' ''org_id'' [VInt32 1]
       roles_state_1 =
     (None, roles_state_2,
      [ColumnInfoQuery ''membership_roles'',
       DataQuery ''SELECT id, org_id, user_id FROM membership_roles WHERE org_id IN ($1) ORDER BY id''
         [VInt32 1]])"
    by (simp add: roles_run cap2_def role_10_def)
  have obs: "TableData roles_state_2 =
       [''memberships'' \<mapsto> [membership_1_5], ''membership_roles'' \<mapsto> [role_10]]"
    "RowCount roles_state_2 = 2" "MaxRows cap2 = 2" "\<not> Force cap2"
    by (simp_all add: roles_state_2_def cap2_def)
  have answer: "run_query roles_db
       ''SELECT org_id, user_id FROM memberships WHERE org_id IN ($1) ORDER BY org_id'' [VInt32 1] =
     Some \<lparr>FieldDescriptions = [''org_id'', ''user_id''],
            Items = [Some [VInt32 1, VInt32 5]], Err = False\<rparr>"
    by (simp add: roles_db_def)
  have same: "rowMap_of [''org_id'', ''user_id''] [VInt32 1, VInt32 5] = membership_1_5"
    by (simp add: rowMap_of_def membership_other_order)
  have again: "fst (fetchRowsByPK roles_db roles_graph cap2 ''memberships'' ''org_id'' [VInt32 1]
       roles_state_2) = Some (RowLimitExceeded 2)"
    by (simp add: roles_run cap2_def)
  have msg: "error_message (RowLimitExceeded 2) =
       ''row limit exceeded (2 rows). Use --force to override''"
    by code_simp
  from root roles obs answer same again msg show ?thesis
    by (simp only: simp_thms)
qed



section \<open>The direct executor (Executor.Execute)\<close>

text \<open>
  The target database is reached through the driver: beginning a transaction, the
  catalog query for the columns of a table, the execution of one statement, commit and
  rollback.  Their effect on the database (of any type \<open>'db\<close>) and their failures
  (\<open>None\<close>) are parameters.  \<open>Execute\<close> returns its error (if any), the database, and
  the operations it has sent to the target, in order.  The deferred \<open>Rollback\<close> runs on
  every path after a successful \<open>Begin\<close> (on a committed transaction the driver does
  nothing).
\<close>

datatype insert_error =
  TargetColumnInfoFailed string
| TargetColumnScanFailed
| InsertRowFailed

datatype exec_error =
  FKIntegrityViolation "(string \<times> string list) list"
| SortTablesFailed graph_error
| BeginFailed
| InsertFailed string insert_error
| CommitFailed

datatype target_op =
  OpBegin
| OpColumnQuery string
| OpExec string "val list"
| OpCommit
| OpRollback

record 'db target_driver =
  begin_tx :: "'db \<Rightarrow> 'db option"
  tx_columns :: "'db \<Rightarrow> string \<Rightarrow> (string \<times> string) option list option"
  tx_exec :: "'db \<Rightarrow> string \<Rightarrow> val list \<Rightarrow> 'db option"
  commit_tx :: "'db \<Rightarrow> 'db option"
  rollback_tx :: "'db \<Rightarrow> 'db"

subsection \<open>validateForeignKeys\<close>

text \<open>
  \<open>validateForeignKeys\<close> ranges over \<open>TableData\<close> in an order that Go does not specify;
  the model takes that order as the list \<open>rangeOrder\<close> (the keys of \<open>TableData\<close>).  The
  map \<open>missingRefs\<close> is an association list; the message lists its entries (Go ranges
  over them in an unspecified order, the model in the order of the list).  The bytes of
  the bullet are those of the source file.
\<close>

definition note_missing ::
  "string \<Rightarrow> string \<Rightarrow> (string \<times> string list) list \<Rightarrow> (string \<times> string list) list" where
  "note_missing tableName parentTable missingRefs =
     AList.update tableName (slice_at missingRefs tableName @ [parentTable]) missingRefs"

definition check_parent ::
  "TraversalState \<Rightarrow> string \<Rightarrow> ForeignKey \<Rightarrow> (string \<times> string list) list \<Rightarrow>
   (string \<times> string list) list" where
  "check_parent s tableName fk missingRefs =
     (let parentTable = ParentTable fk in
      if parentTable = tableName then missingRefs
      else
        case TableData s parentTable of
          None \<Rightarrow> note_missing tableName parentTable missingRefs
        | Some parentRows \<Rightarrow>
            if length parentRows = 0 then note_missing tableName parentTable missingRefs
            else missingRefs)"

definition check_table ::
  "Graph \<Rightarrow> TraversalState \<Rightarrow> string \<Rightarrow> (string \<times> string list) list \<Rightarrow>
   (string \<times> string list) list" where
  "check_table g s tableName missingRefs =
     (if length (data_of s tableName) = 0 then missingRefs
      else fold (check_parent s tableName) (slice_at (Parents g) tableName) missingRefs)"

definition bullet :: string where
  "bullet = [CHR 0xC3, CHR 0xA2, CHR 0xE2, CHR 0x82, CHR 0xAC, CHR 0xC2, CHR 0xA2]"

definition violation_line :: "string \<times> string list \<Rightarrow> string" where
  "violation_line entry =
     ''  '' @ bullet @ '' Table '' @ [CHR 0x27] @ fst entry @ [CHR 0x27] @
     '' references missing parent table(s): '' @ Join (snd entry) '', '' @ [CHR 0x0A]"

definition violation_message :: "(string \<times> string list) list \<Rightarrow> string" where
  "violation_message missingRefs =
     ''foreign key integrity violation: some extracted rows reference parent tables that were not extracted:'' @
     [CHR 0x0A, CHR 0x0A] @
     concat (map violation_line missingRefs) @
     [CHR 0x0A] @
     ''This usually means the FK graph traversal didn''  @ [CHR 0x27] @ ''t include all necessary parent tables.'' @
     [CHR 0x0A] @
     ''Try using full traversal (without --parents or --children flags) or check your FK relationships.''"

definition validateForeignKeys ::
  "Graph \<Rightarrow> string list \<Rightarrow> TraversalState \<Rightarrow> exec_error option" where
  "validateForeignKeys g tables s =
     (let missingRefs = fold (check_table g s) tables []
      in if length (keys_of missingRefs) > 0 then Some (FKIntegrityViolation missingRefs)
         else None)"

subsection \<open>insertTable\<close>

text \<open>
  The columns of the statement are the sorted keys of the first row.  \<open>GetAllTables\<close>
  gives the tables for the topological sort in an unspecified order: the list \<open>tables\<close>.
\<close>

definition json_columns_of :: "(string \<times> string) list \<Rightarrow> (string \<times> string) list" where
  "json_columns_of cols =
     fold (\<lambda>(colName, dataType) jsonbCols.
             if is_json_type dataType then AList.update colName dataType jsonbCols else jsonbCols)
          cols []"

definition placeholder :: "(string \<times> string) list \<Rightarrow> nat \<Rightarrow> string \<Rightarrow> string" where
  "placeholder jsonbCols i col =
     (case map_of jsonbCols col of
        Some dataType \<Rightarrow> ''$'' @ show_nat (i + 1) @ ''::'' @ dataType
      | None \<Rightarrow> ''$'' @ show_nat (i + 1))"

definition insert_query ::
  "bool \<Rightarrow> string \<Rightarrow> string list \<Rightarrow> string list \<Rightarrow> (string \<times> string) list \<Rightarrow> string" where
  "insert_query upsertMode tableName pkColumns columns jsonbCols =
     (let placeholders = map (\<lambda>(i, col). placeholder jsonbCols i col) (enumerate 0 columns);
          plain = ''INSERT INTO '' @ tableName @ '' ('' @ Join columns '', '' @ '') VALUES ('' @
                  Join placeholders '', '' @ '')''
      in if upsertMode then
           (let updateSet = map (\<lambda>col. col @ '' = EXCLUDED.'' @ col)
                               (filter (\<lambda>col. col \<notin> set pkColumns) columns)
            in if length updateSet > 0
               then plain @ '' ON CONFLICT ('' @ Join pkColumns '', '' @ '') DO UPDATE SET '' @
                    Join updateSet '', ''
               else plain @ '' ON CONFLICT ('' @ Join pkColumns '', '' @ '') DO NOTHING'')
         else plain)"

fun exec_rows ::
  "'db target_driver \<Rightarrow> string \<Rightarrow> string list \<Rightarrow> row list \<Rightarrow> 'db \<Rightarrow> target_op list \<Rightarrow>
   insert_error option \<times> 'db \<times> target_op list" where
  "exec_rows drv query columns [] db ops = (None, db, ops)"
| "exec_rows drv query columns (r # rows) db ops =
     (let vs = map (row_val r) columns in
      case tx_exec drv db query vs of
        None \<Rightarrow> (Some InsertRowFailed, db, ops @ [OpExec query vs])
      | Some db' \<Rightarrow> exec_rows drv query columns rows db' (ops @ [OpExec query vs]))"

definition insertTable ::
  "'db target_driver \<Rightarrow> Graph \<Rightarrow> bool \<Rightarrow> string \<Rightarrow> row list \<Rightarrow> 'db \<Rightarrow> target_op list \<Rightarrow>
   insert_error option \<times> 'db \<times> target_op list" where
  "insertTable drv g upsertMode tableName rows0 db ops =
     (case rows0 of
        [] \<Rightarrow> (None, db, ops)
      | first # _ \<Rightarrow>
          (let pkColumns = GetPrimaryKeyColumns g tableName;
               rows = sort_rows_by_pk pkColumns rows0;
               columns = sorted_list_of_set (dom (hd rows));
               ops1 = ops @ [OpColumnQuery tableName]
           in case tx_columns drv db tableName of
                None \<Rightarrow> (Some (TargetColumnInfoFailed tableName), db, ops1)
              | Some colRows \<Rightarrow>
                  (case scan_columns colRows of
                     None \<Rightarrow> (Some TargetColumnScanFailed, db, ops1)
                   | Some cols \<Rightarrow>
                       exec_rows drv
                         (insert_query upsertMode tableName pkColumns columns (json_columns_of cols))
                         columns rows db ops1)))"

fun insert_tables ::
  "'db target_driver \<Rightarrow> Graph \<Rightarrow> bool \<Rightarrow> TraversalState \<Rightarrow> string list \<Rightarrow> 'db \<Rightarrow>
   target_op list \<Rightarrow> exec_error option \<times> 'db \<times> target_op list" where
  "insert_tables drv g upsertMode s [] db ops = (None, db, ops)"
| "insert_tables drv g upsertMode s (tableName # rest) db ops =
     (let rows = data_of s tableName in
      if length rows = 0 then insert_tables drv g upsertMode s rest db ops
      else
        case insertTable drv g upsertMode tableName rows db ops of
          (Some e, db', ops') \<Rightarrow> (Some (InsertFailed tableName e), db', ops')
        | (None, db', ops') \<Rightarrow> insert_tables drv g upsertMode s rest db' ops')"

subsection \<open>Execute\<close>

definition Execute ::
  "'db target_driver \<Rightarrow> Graph \<Rightarrow> bool \<Rightarrow> string list \<Rightarrow> string list \<Rightarrow> TraversalState \<Rightarrow> 'db \<Rightarrow>
   exec_error option \<times> 'db \<times> target_op list" where
  "Execute drv g upsertMode rangeOrder tables s db =
     (case validateForeignKeys g rangeOrder s of
        Some e \<Rightarrow> (Some e, db, [])
      | None \<Rightarrow>
          (case TopologicalSort g tables of
             Inl e \<Rightarrow> (Some (SortTablesFailed e), db, [])
           | Inr sortedTables \<Rightarrow>
               (case begin_tx drv db of
                  None \<Rightarrow> (Some BeginFailed, db, [OpBegin])
                | Some tx \<Rightarrow>
                    (case insert_tables drv g upsertMode s sortedTables tx [OpBegin] of
                       (Some e, tx', ops) \<Rightarrow> (Some e, rollback_tx drv tx', ops @ [OpRollback])
                     | (None, tx', ops) \<Rightarrow>
                         (case commit_tx drv tx' of
                            None \<Rightarrow> (Some CommitFailed, rollback_tx drv tx',
                                      ops @ [OpCommit, OpRollback])
                          | Some db' \<Rightarrow> (None, rollback_tx drv db',
                                        ops @ [OpCommit, OpRollback]))))))"


section \<open>Foreign-key validation before insertion\<close>

text \<open>
  The parents that the check of a table finds missing: the parent tables of its
  foreign keys, self-references left out, that have no entry or no row in \<open>TableData\<close>.
\<close>

definition missing_parents :: "Graph \<Rightarrow> TraversalState \<Rightarrow> string \<Rightarrow> string list" where
  "missing_parents g s tableName =
     map ParentTable
       (filter (\<lambda>fk. ParentTable fk \<noteq> tableName \<and> data_of s (ParentTable fk) = [])
          (slice_at (Parents g) tableName))"

lemma check_parent_eq:
  "check_parent s t fk m =
     (if ParentTable fk \<noteq> t \<and> data_of s (ParentTable fk) = []
      then AList.update t (slice_at m t @ [ParentTable fk]) m else m)"
  by (auto simp: check_parent_def note_missing_def data_of_def Let_def split: option.splits)

lemma fold_check_parent:
  "map_of (fold (check_parent s t) fks m) t' =
     (if t' = t \<and> filter (\<lambda>fk. ParentTable fk \<noteq> t \<and> data_of s (ParentTable fk) = []) fks \<noteq> []
      then Some (slice_at m t @
             map ParentTable
               (filter (\<lambda>fk. ParentTable fk \<noteq> t \<and> data_of s (ParentTable fk) = []) fks))
      else map_of m t')"
proof (induction fks arbitrary: m)
  case Nil
  show ?case by simp
next
  case (Cons fk fks)
  show ?case
    by (auto simp: Cons.IH check_parent_eq [of s t fk] update_conv')
qed

lemma check_table_map_of:
  "map_of (check_table g s t m) t' =
     (if t' = t \<and> data_of s t \<noteq> [] \<and> missing_parents g s t \<noteq> []
      then Some (slice_at m t @ missing_parents g s t) else map_of m t')"
  by (simp add: check_table_def fold_check_parent missing_parents_def)

lemma fold_check_table:
  assumes "distinct ts" "set ts \<inter> dom (map_of m) = {}"
  shows "map_of (fold (check_table g s) ts m) t' =
           (if t' \<in> set ts \<and> data_of s t' \<noteq> [] \<and> missing_parents g s t' \<noteq> []
            then Some (missing_parents g s t') else map_of m t')"
  using assms
proof (induction ts arbitrary: m)
  case Nil
  show ?case by simp
next
  case (Cons t ts)
  have notin: "t \<notin> dom (map_of m)" using Cons.prems(2) by auto
  then have sl: "slice_at m t = []" by (auto simp: slice_at_def split: option.splits)
  have dom_sub: "dom (map_of (check_table g s t m)) \<subseteq> insert t (dom (map_of m))"
    by (auto simp: check_table_map_of split: if_splits)
  have disj: "set ts \<inter> dom (map_of (check_table g s t m)) = {}"
    using dom_sub Cons.prems by auto
  have d: "distinct ts" using Cons.prems(1) by simp
  have tn: "t \<notin> set ts" using Cons.prems(1) by simp
  have "map_of (fold (check_table g s) (t # ts) m) t' =
        map_of (fold (check_table g s) ts (check_table g s t m)) t'" by simp
  also have "\<dots> = (if t' \<in> set ts \<and> data_of s t' \<noteq> [] \<and> missing_parents g s t' \<noteq> []
            then Some (missing_parents g s t') else map_of (check_table g s t m) t')"
    by (rule Cons.IH [OF d disj])
  also have "\<dots> = (if t' \<in> set (t # ts) \<and> data_of s t' \<noteq> [] \<and> missing_parents g s t' \<noteq> []
            then Some (missing_parents g s t') else map_of m t')"
    using tn by (auto simp: check_table_map_of sl)
  finally show ?case .
qed

lemma keys_of_empty_iff: "keys_of m = [] \<longleftrightarrow> map_of m = Map.empty"
proof -
  have "keys_of m = [] \<longleftrightarrow> m = []" by (simp add: keys_of_def)
  also have "\<dots> \<longleftrightarrow> map_of m = Map.empty"
    by (cases m) (auto simp: fun_eq_iff)
  finally show ?thesis .
qed

lemma violation_message_lists:
  assumes "entry \<in> set m"
  shows "Contains (violation_message m) (violation_line entry)"
proof -
  from assms obtain m1 m2 where m: "m = m1 @ entry # m2" by (meson split_list)
  have "\<exists>pre post. violation_message m = pre @ violation_line entry @ post"
    unfolding violation_message_def m
    by (simp only: map_append concat_append list.map concat.simps append_assoc [symmetric])
      (metis append_assoc)
  then show ?thesis unfolding Contains_iff .
qed

text \<open>
  C5.  \<open>Execute\<close> validates first.  If some table with rows has a foreign key to another
  table that is absent from the extracted data or has no rows, \<open>Execute\<close> fails with
  the integrity violation whose map lists exactly the tables with rows and a missing
  parent, each with its missing parent tables (and the message has a line for each of
  them); it has sent nothing to the target (no \<open>Begin\<close>, no column query, no insert), and
  the target database is the one it was given.  If there is no such table, the
  validation passes.
\<close>

theorem Execute_validates_first:
  assumes "distinct rangeOrder" and "set rangeOrder = dom (TableData s)"
  shows "((\<exists>t. data_of s t \<noteq> [] \<and> missing_parents g s t \<noteq> []) \<longrightarrow>
            (\<exists>m. Execute drv g upsertMode rangeOrder tables s db =
                    (Some (FKIntegrityViolation m), db, []) \<and>
                 (\<forall>t. map_of m t =
                        (if data_of s t \<noteq> [] \<and> missing_parents g s t \<noteq> []
                         then Some (missing_parents g s t) else None)) \<and>
                 (\<forall>entry \<in> set m. Contains (violation_message m) (violation_line entry)))) \<and>
         (\<not> (\<exists>t. data_of s t \<noteq> [] \<and> missing_parents g s t \<noteq> []) \<longrightarrow>
            validateForeignKeys g rangeOrder s = None)"
proof -
  define m where "m = fold (check_table g s) rangeOrder []"
  have in_range: "t \<in> set rangeOrder" if "data_of s t \<noteq> []" for t
    using that assms(2) by (auto simp: data_of_def split: option.splits)
  have mo: "map_of m t =
              (if data_of s t \<noteq> [] \<and> missing_parents g s t \<noteq> []
               then Some (missing_parents g s t) else None)" for t
    unfolding m_def using in_range [of t]
    by (simp add: fold_check_table [OF assms(1)])
  show ?thesis
  proof (cases "\<exists>t. data_of s t \<noteq> [] \<and> missing_parents g s t \<noteq> []")
    case True
    then obtain t where "map_of m t \<noteq> None" using mo by auto
    then have "keys_of m \<noteq> []" unfolding keys_of_empty_iff by (auto simp: fun_eq_iff)
    then have v: "validateForeignKeys g rangeOrder s = Some (FKIntegrityViolation m)"
      by (simp add: validateForeignKeys_def m_def [symmetric] Let_def)
    then have "Execute drv g upsertMode rangeOrder tables s db =
                 (Some (FKIntegrityViolation m), db, [])"
      by (simp add: Execute_def)
    with mo violation_message_lists True show ?thesis by blast
  next
    case False
    then have "map_of m = Map.empty" using mo by (auto simp: fun_eq_iff)
    then have "keys_of m = []" unfolding keys_of_empty_iff .
    then have "validateForeignKeys g rangeOrder s = None"
      by (simp add: validateForeignKeys_def m_def [symmetric] Let_def)
    with False show ?thesis by blast
  qed
qed


definition counting_driver :: "nat target_driver" where
  "counting_driver =
     \<lparr>begin_tx = Some, tx_columns = (\<lambda>db t. Some []),
      tx_exec = (\<lambda>db q vs. Some (Suc db)), commit_tx = Some, rollback_tx = (\<lambda>db. db)\<rparr>"

definition tasks_only_state :: TraversalState where
  "tasks_only_state =
     \<lparr>VisitedRows = [''tasks'' \<mapsto> {VInt32 1}],
      TableData = [''tasks'' \<mapsto> [[''id'' \<mapsto> VInt32 1, ''project_id'' \<mapsto> VInt32 1,
                                    ''assigned_to'' \<mapsto> VInt32 2]]],
      RowCount = 1\<rparr>"

definition orgs_only_state :: TraversalState where
  "orgs_only_state =
     \<lparr>VisitedRows = [''organizations'' \<mapsto> {VInt32 1}],
      TableData = [''organizations'' \<mapsto> [[''id'' \<mapsto> VInt32 1, ''name'' \<mapsto> VText ''Acme Corp'']]],
      RowCount = 1\<rparr>"

lemma tasks_missing:
  "missing_parents org_graph tasks_only_state ''tasks'' = [''projects'', ''users'']"
  by (simp add: missing_parents_def org_graph_def slice_at_def tasks_only_state_def data_of_def)

lemma orgs_missing: "missing_parents org_graph orgs_only_state t = [] \<or> data_of orgs_only_state t = []"
  by (simp add: missing_parents_def org_graph_def slice_at_def orgs_only_state_def data_of_def)

theorem Execute_validates_first_witness:
  "distinct [''tasks''] \<and> set [''tasks''] = dom (TableData tasks_only_state) \<and>
   data_of tasks_only_state ''tasks'' \<noteq> [] \<and>
   (\<exists>m. Execute counting_driver org_graph False [''tasks''] [''tasks''] tasks_only_state 0 =
           (Some (FKIntegrityViolation m), 0, []) \<and>
        map_of m ''tasks'' = Some [''projects'', ''users'']) \<and>
   validateForeignKeys org_graph [''organizations''] orgs_only_state = None"
proof -
  have d: "distinct [''tasks'']" by simp
  have dm: "set [''tasks''] = dom (TableData tasks_only_state)"
    by (simp add: tasks_only_state_def)
  have ne: "data_of tasks_only_state ''tasks'' \<noteq> []"
    by (simp add: tasks_only_state_def data_of_def)
  have ex: "\<exists>t. data_of tasks_only_state t \<noteq> [] \<and> missing_parents org_graph tasks_only_state t \<noteq> []"
    using ne tasks_missing by (intro exI [of _ "''tasks''"]) simp
  from Execute_validates_first [OF d dm, of org_graph counting_driver False "[''tasks'']" 0] ex
  obtain m where e: "Execute counting_driver org_graph False [''tasks''] [''tasks''] tasks_only_state 0 =
           (Some (FKIntegrityViolation m), 0, [])"
    and mo: "\<forall>t. map_of m t =
               (if data_of tasks_only_state t \<noteq> [] \<and> missing_parents org_graph tasks_only_state t \<noteq> []
                then Some (missing_parents org_graph tasks_only_state t) else None)"
    by blast
  from mo ne tasks_missing have m1: "map_of m ''tasks'' = Some [''projects'', ''users'']" by simp
  have d2: "distinct [''organizations'']" by simp
  have dm2: "set [''organizations''] = dom (TableData orgs_only_state)"
    by (simp add: orgs_only_state_def)
  have no: "\<not> (\<exists>t. data_of orgs_only_state t \<noteq> [] \<and> missing_parents org_graph orgs_only_state t \<noteq> [])"
    using orgs_missing by blast
  from Execute_validates_first [OF d2 dm2, of org_graph counting_driver False "[''organizations'']" 0] no
  have v: "validateForeignKeys org_graph [''organizations''] orgs_only_state = None" by blast
  from d dm ne e m1 v show ?thesis by blast
qed

text \<open>A run of \<open>Execute\<close> that passes the validation and inserts one row.\<close>

lemma Execute_orgs_example:
  "Execute counting_driver org_graph False [''organizations''] [''organizations''] orgs_only_state 0 =
     (None, 1,
      [OpBegin, OpColumnQuery ''organizations'',
       OpExec ''INSERT INTO organizations (id, name) VALUES ($1, $2)'' [VInt32 1, VText ''Acme Corp''],
       OpCommit, OpRollback])"
proof -
  have v: "validateForeignKeys org_graph [''organizations''] orgs_only_state = None"
    by (simp add: validateForeignKeys_def check_table_def org_graph_def slice_at_def keys_of_def)
  have t: "TopologicalSort org_graph [''organizations''] = Inr [''organizations'']"
    by code_simp
  have dom: "dom [''id'' \<mapsto> VInt32 1, ''name'' \<mapsto> VText ''Acme Corp''] = {''id'', ''name''}"
    by auto
  have cols: "sorted_list_of_set {''id'', ''name''} = [''id'', ''name'']"
    by (simp add: sorted_list_of_set_insert_remove insort_key.simps)
  have q: "insert_query False ''organizations'' [] [''id'', ''name''] [] =
             ''INSERT INTO organizations (id, name) VALUES ($1, $2)''"
    by code_simp
  have pk: "GetPrimaryKeyColumns org_graph ''organizations'' = []"
    by (simp add: GetPrimaryKeyColumns_def slice_at_def org_graph_def)
  have dt: "data_of orgs_only_state ''organizations'' =
              [[''id'' \<mapsto> VInt32 1, ''name'' \<mapsto> VText ''Acme Corp'']]"
    by (simp add: orgs_only_state_def data_of_def)
  show ?thesis
    by (simp add: Execute_def v t counting_driver_def dt pk
        insertTable_def sort_rows_by_pk_def
        dom cols q json_columns_of_def row_val_def Let_def)
qed

section \<open>Cycle detection (DetectMultiTableCycles)\<close>

text \<open>
  \<^verbatim>\<open>DetectMultiTableCycles\<close> colours the tables: \<^verbatim>\<open>WHITE\<close> (0, the value a Go map gives
  for a table it has no entry for), \<^verbatim>\<open>GRAY\<close> while a table is on the recursion stack and
  \<^verbatim>\<open>BLACK\<close> once all its children are done. The two maps \<^verbatim>\<open>color\<close> and \<^verbatim>\<open>parent\<close> are total
  functions here, with the defaults of Go (\<^verbatim>\<open>WHITE\<close> and the empty string).

  The closure \<^verbatim>\<open>dfs\<close> is recursive and the walk along the parent pointers is a loop, so
  both take fuel: \<open>None\<close> is a run that did not end within the fuel. \<open>dfs\<close> returns the
  reported cycle, if any, and the state of the two maps; \<open>dfs_loop\<close> is the loop over
  \<^verbatim>\<open>g.Children[table]\<close>, \<open>walk_up\<close> the loop that collects the cycle and \<open>cycle_of\<close> adds the
  last element and reverses the slice. \<open>dfs_all\<close> is the final loop over the sorted tables.
\<close>

datatype color = WHITE | GRAY | BLACK

record dfs_state =
  colorOf :: "string \<Rightarrow> color"
  parentOf :: "string \<Rightarrow> string"

definition dfs_init :: dfs_state where
  "dfs_init = \<lparr>colorOf = (\<lambda>t. WHITE), parentOf = (\<lambda>t. [])\<rparr>"

fun walk_up :: "nat \<Rightarrow> (string \<Rightarrow> string) \<Rightarrow> string \<Rightarrow> string \<Rightarrow> string list \<Rightarrow> string list option" where
  "walk_up fuel par childTable current cycle =
     (if current \<noteq> childTable \<and> current \<noteq> []
      then (case fuel of
              0 \<Rightarrow> None
            | Suc fuel' \<Rightarrow> walk_up fuel' par childTable (par current) (cycle @ [current]))
      else Some cycle)"

declare walk_up.simps [simp del]

definition cycle_of :: "nat \<Rightarrow> dfs_state \<Rightarrow> string \<Rightarrow> string \<Rightarrow> string list option" where
  "cycle_of fuel st table childTable =
     map_option (\<lambda>cycle. rev (cycle @ [childTable]))
       (walk_up fuel (parentOf st) childTable table [childTable])"

fun dfs ::
    "nat \<Rightarrow> nat \<Rightarrow> Graph \<Rightarrow> string \<Rightarrow> dfs_state \<Rightarrow> (string list option \<times> dfs_state) option"
  and dfs_loop ::
    "nat \<Rightarrow> nat \<Rightarrow> Graph \<Rightarrow> string \<Rightarrow> ForeignKey list \<Rightarrow> dfs_state \<Rightarrow>
     (string list option \<times> dfs_state) option" where
  "dfs w 0 g table st = None"
| "dfs w (Suc n) g table st =
     (case dfs_loop w n g table (GetChildren g table) (st\<lparr>colorOf := (colorOf st)(table := GRAY)\<rparr>) of
        None \<Rightarrow> None
      | Some (Some cycle, st') \<Rightarrow> Some (Some cycle, st')
      | Some (None, st') \<Rightarrow> Some (None, st'\<lparr>colorOf := (colorOf st')(table := BLACK)\<rparr>))"
| "dfs_loop w n g table [] st = Some (None, st)"
| "dfs_loop w n g table (fk # fks) st =
     (let childTable = ChildTable fk in
      if childTable = table then dfs_loop w n g table fks st
      else if colorOf st childTable = GRAY then
        (case cycle_of w st table childTable of
           None \<Rightarrow> None
         | Some cycle \<Rightarrow> Some (Some cycle, st))
      else if colorOf st childTable = WHITE then
        (case dfs w n g childTable (st\<lparr>parentOf := (parentOf st)(childTable := table)\<rparr>) of
           None \<Rightarrow> None
         | Some (Some cycle, st') \<Rightarrow> Some (Some cycle, st')
         | Some (None, st') \<Rightarrow> dfs_loop w n g table fks st')
      else dfs_loop w n g table fks st)"

fun dfs_all :: "nat \<Rightarrow> Graph \<Rightarrow> string list \<Rightarrow> dfs_state \<Rightarrow> string list option option" where
  "dfs_all fuel g [] st = Some None"
| "dfs_all fuel g (table # tables) st =
     (if colorOf st table = WHITE then
        (case dfs fuel fuel g table st of
           None \<Rightarrow> None
         | Some (Some cycle, st') \<Rightarrow> Some (Some cycle)
         | Some (None, st') \<Rightarrow> dfs_all fuel g tables st')
      else dfs_all fuel g tables st)"

definition allTables :: "Graph \<Rightarrow> string list" where
  "allTables g = remdups (map fst (Parents g) @ map fst (Children g))"

definition DetectMultiTableCycles :: "nat \<Rightarrow> Graph \<Rightarrow> graph_error option option" where
  "DetectMultiTableCycles fuel g =
     map_option (map_option CyclicForeignKeys) (dfs_all fuel g (sort (allTables g)) dfs_init)"

definition BuildGraph :: "nat \<Rightarrow> Graph \<Rightarrow> (graph_error + Graph) option" where
  "BuildGraph fuel metadata =
     (case DetectMultiTableCycles fuel metadata of
        None \<Rightarrow> None
      | Some (Some err) \<Rightarrow> Some (Inl err)
      | Some None \<Rightarrow> Some (Inr metadata))"

fun graph_error_message :: "graph_error \<Rightarrow> string" where
  "graph_error_message (CyclicForeignKeys cycle) =
     ''cyclic foreign keys detected: '' @ Join cycle '' -> '' @
     ''. Use --parents or --children to avoid cycles''"
| "graph_error_message (CycleInTableDependencies remaining) =
     ''cycle detected in table dependencies involving: '' @ show_vals (map VText remaining)"

text \<open>Two small graphs: tables \<open>a\<close> and \<open>b\<close> referencing each other, and a table
  \<open>users\<close> referencing itself.\<close>

definition two_cycle_graph :: Graph where
  "two_cycle_graph =
     \<lparr>Parents = [(''a'', [mk_fk ''a'' ''b_id'' ''b'' ''id'']), (''b'', [mk_fk ''b'' ''a_id'' ''a'' ''id''])],
      Children = [(''b'', [mk_fk ''a'' ''b_id'' ''b'' ''id'']), (''a'', [mk_fk ''b'' ''a_id'' ''a'' ''id''])],
      PrimaryKey = [(''a'', [''id'']), (''b'', [''id''])]\<rparr>"

definition self_loop_graph :: Graph where
  "self_loop_graph =
     \<lparr>Parents = [(''users'', [mk_fk ''users'' ''manager_id'' ''users'' ''id''])],
      Children = [(''users'', [mk_fk ''users'' ''manager_id'' ''users'' ''id''])],
      PrimaryKey = [(''users'', [''id''])]\<rparr>"

subsection \<open>The graph of the foreign keys\<close>

text \<open>
  The search follows \<^verbatim>\<open>g.Children\<close>: there is an edge from a table to each other table
  that has a foreign key listed under it. A self-reference is no edge. A multi-table
  cycle is a closed path along these edges; \<open>is_cycle\<close> says that a list of tables is such
  a path, written from a table back to itself.
\<close>

definition has_edge :: "Graph \<Rightarrow> string \<Rightarrow> string \<Rightarrow> bool" where
  "has_edge g p c \<longleftrightarrow> c \<noteq> p \<and> c \<in> set (map ChildTable (GetChildren g p))"

definition fk_edges :: "Graph \<Rightarrow> (string \<times> string) set" where
  "fk_edges g = {(p, c). has_edge g p c}"

definition node_list :: "Graph \<Rightarrow> string list" where
  "node_list g =
     map fst (Parents g) @ map fst (Children g) @
     concat (map (\<lambda>(p, fks). map ChildTable fks) (Children g))"

fun edge_path :: "Graph \<Rightarrow> string list \<Rightarrow> bool" where
  "edge_path g [] = True"
| "edge_path g [x] = True"
| "edge_path g (x # y # zs) = (has_edge g x y \<and> edge_path g (y # zs))"

definition is_cycle :: "Graph \<Rightarrow> string list \<Rightarrow> bool" where
  "is_cycle g cycle \<longleftrightarrow> 3 \<le> length cycle \<and> hd cycle = last cycle \<and> edge_path g cycle"

definition has_multi_table_cycle :: "Graph \<Rightarrow> bool" where
  "has_multi_table_cycle g \<longleftrightarrow> (\<exists>x. (x, x) \<in> (fk_edges g)\<^sup>+)"

fun chain :: "Graph \<Rightarrow> (string \<Rightarrow> string) \<Rightarrow> string list \<Rightarrow> bool" where
  "chain g par [] = True"
| "chain g par [x] = True"
| "chain g par (x # y # zs) = (par x = y \<and> has_edge g y x \<and> chain g par (y # zs))"

lemma has_edge_nodes:
  assumes "has_edge g p c"
  shows "p \<in> set (node_list g) \<and> c \<in> set (node_list g)"
proof -
  from assms have c: "c \<in> ChildTable ` set (slice_at (Children g) p)"
    by (simp add: has_edge_def GetChildren_def)
  obtain fks where m: "map_of (Children g) p = Some fks" and cf: "c \<in> ChildTable ` set fks"
  proof (cases "map_of (Children g) p")
    case None
    then show ?thesis using c by (simp add: slice_at_def)
  next
    case (Some fks)
    then show ?thesis using c that by (simp add: slice_at_def)
  qed
  from m have mem: "(p, fks) \<in> set (Children g)" by (rule map_of_SomeD)
  then have "p \<in> set (map fst (Children g))" by force
  moreover have "c \<in> set (concat (map (\<lambda>(p, fks). map ChildTable fks) (Children g)))"
    using mem cf by force
  ultimately show ?thesis by (simp add: node_list_def)
qed

lemma has_edge_key:
  assumes "has_edge g p c"
  shows "p \<in> set (allTables g)"
proof -
  from assms have "slice_at (Children g) p \<noteq> []"
    by (auto simp: has_edge_def GetChildren_def)
  then obtain fks where "map_of (Children g) p = Some fks"
    by (cases "map_of (Children g) p") (simp_all add: slice_at_def)
  then have "(p, fks) \<in> set (Children g)" by (rule map_of_SomeD)
  then have "p \<in> set (map fst (Children g))" by force
  then show ?thesis by (simp add: allTables_def)
qed

lemma allTables_nodes: "set (allTables g) \<subseteq> set (node_list g)"
  by (auto simp: allTables_def node_list_def)

lemma edge_path_snoc:
  "edge_path g zs \<Longrightarrow> zs \<noteq> [] \<Longrightarrow> has_edge g (last zs) c \<Longrightarrow> edge_path g (zs @ [c])"
  by (induction g zs rule: edge_path.induct) auto

lemma chain_edge_path_rev: "chain g par zs \<Longrightarrow> edge_path g (rev zs)"
proof (induction g par zs rule: chain.induct)
  case (3 g par x y zs)
  then have "edge_path g (rev (y # zs))" and "has_edge g y x" by simp_all
  then have "edge_path g (rev (y # zs) @ [x])"
    by (intro edge_path_snoc) simp_all
  then show ?case by simp
qed simp_all

lemma chain_prefix: "chain g par (as @ bs) \<Longrightarrow> chain g par as"
proof (induction g par as rule: chain.induct)
  case (3 g par x y zs)
  then show ?case by simp
qed simp_all

lemma chain_tl: "chain g par (x # zs) \<Longrightarrow> chain g par zs"
  by (cases zs) simp_all

lemma chain_cong:
  "(\<And>x. x \<in> set zs \<Longrightarrow> par x = par' x) \<Longrightarrow> chain g par zs = chain g par' zs"
  by (induction g par zs rule: chain.induct) auto

lemma chain_hd:
  "chain g par (x # zs) \<Longrightarrow> zs \<noteq> [] \<Longrightarrow> par x = hd zs \<and> has_edge g (hd zs) x"
  by (cases zs) simp_all

lemma walk_up_chain:
  assumes "chain g par (pre @ childTable # post)" "childTable \<notin> set pre" "[] \<notin> set pre"
    "length pre \<le> fuel"
  shows "walk_up fuel par childTable (hd (pre @ [childTable])) cycle = Some (cycle @ pre)"
  using assms
proof (induction pre arbitrary: fuel cycle)
  case Nil
  show ?case by (simp add: walk_up.simps)
next
  case (Cons x ps)
  from Cons.prems(4) obtain f where f: "fuel = Suc f" and lf: "length ps \<le> f"
    by (cases fuel) auto
  have x: "x \<noteq> childTable" "x \<noteq> []" using Cons.prems(2,3) by auto
  have "par x = hd (ps @ childTable # post)"
    using chain_hd [of g par x "ps @ childTable # post"] Cons.prems(1) by simp
  then have px: "par x = hd (ps @ [childTable])" by (cases ps) simp_all
  have ch: "chain g par (ps @ childTable # post)"
    using Cons.prems(1) chain_tl [of g par x "ps @ childTable # post"] by simp
  have "walk_up f par childTable (hd (ps @ [childTable])) (cycle @ [x]) = Some ((cycle @ [x]) @ ps)"
    using Cons.prems(2,3) by (intro Cons.IH [OF ch _ _ lf]) auto
  then show ?case using x by (simp add: walk_up.simps [of "Suc f"] f px)
qed

lemma edge_path_trancl:
  "edge_path g (x # zs) \<Longrightarrow> zs \<noteq> [] \<Longrightarrow> (x, last zs) \<in> (fk_edges g)\<^sup>+"
proof (induction zs arbitrary: x)
  case Nil
  then show ?case by simp
next
  case (Cons y zs)
  then have e: "(x, y) \<in> fk_edges g" by (simp add: fk_edges_def)
  show ?case
  proof (cases zs)
    case Nil
    then show ?thesis using e by auto
  next
    case (Cons z zs')
    then have "(y, last zs) \<in> (fk_edges g)\<^sup>+"
      using Cons.IH [of y] Cons.prems by simp
    then show ?thesis using e Cons by (simp add: trancl_into_trancl2)
  qed
qed

lemma is_cycle_trancl:
  assumes "is_cycle g cycle"
  shows "\<exists>x. (x, x) \<in> (fk_edges g)\<^sup>+"
proof -
  from assms have l: "3 \<le> length cycle" by (simp add: is_cycle_def)
  then obtain x zs where c: "cycle = x # zs" by (cases cycle) auto
  from l c have z: "zs \<noteq> []" by auto
  from assms have "edge_path g (x # zs)" and "last zs = x"
    using c z by (auto simp: is_cycle_def)
  then show ?thesis using edge_path_trancl [of g x zs] z by auto
qed


subsection \<open>The invariant of the search\<close>

text \<open>
  During the search the gray tables are the recursion stack, each one reached from the
  one below it along an edge that the parent pointer records; no black table lies on a
  cycle and every edge out of a black table leads to a black table. \<open>frame\<close> says that a
  call leaves the tables alone that were not white when it began, and \<open>whites\<close> are the
  tables still to be visited, which bound the depth of the recursion.
\<close>

definition black_closed :: "Graph \<Rightarrow> dfs_state \<Rightarrow> bool" where
  "black_closed g st \<longleftrightarrow>
     (\<forall>x. colorOf st x = BLACK \<longrightarrow>
        (\<forall>y. has_edge g x y \<longrightarrow> colorOf st y = BLACK) \<and> (x, x) \<notin> (fk_edges g)\<^sup>+)"

definition dfs_inv :: "Graph \<Rightarrow> dfs_state \<Rightarrow> string list \<Rightarrow> bool" where
  "dfs_inv g st stack \<longleftrightarrow>
     {x. colorOf st x = GRAY} = set stack \<and> distinct stack \<and>
     chain g (parentOf st) stack \<and> [] \<notin> set stack \<and> set stack \<subseteq> set (node_list g) \<and>
     black_closed g st"

definition frame :: "dfs_state \<Rightarrow> dfs_state \<Rightarrow> bool" where
  "frame st st' \<longleftrightarrow>
     (\<forall>x. colorOf st x \<noteq> WHITE \<longrightarrow> colorOf st' x = colorOf st x \<and> parentOf st' x = parentOf st x)"

definition whites :: "Graph \<Rightarrow> dfs_state \<Rightarrow> string set" where
  "whites g st = {x \<in> set (node_list g). colorOf st x = WHITE}"

lemma frame_refl [simp]: "frame st st"
  by (simp add: frame_def)

lemma frame_trans: "frame st st' \<Longrightarrow> frame st' st'' \<Longrightarrow> frame st st''"
  unfolding frame_def by metis

lemma frame_whites: "frame st st' \<Longrightarrow> whites g st' \<subseteq> whites g st"
  unfolding frame_def whites_def by auto

lemma frame_card_whites: "frame st st' \<Longrightarrow> card (whites g st') \<le> card (whites g st)"
  by (intro card_mono frame_whites) (simp_all add: whites_def)

lemma black_reach:
  assumes "black_closed g st" "colorOf st x = BLACK" "(x, y) \<in> (fk_edges g)\<^sup>+"
  shows "colorOf st y = BLACK"
  using assms(3,2)
proof (induction rule: trancl_induct)
  case (base y)
  then show ?case using assms(1) by (auto simp: black_closed_def fk_edges_def)
next
  case (step y z)
  then show ?case using assms(1) by (auto simp: black_closed_def fk_edges_def)
qed

lemma inv_gray_iff: "dfs_inv g st stack \<Longrightarrow> x \<in> set stack \<longleftrightarrow> colorOf st x = GRAY"
  unfolding dfs_inv_def by blast

lemma inv_set_parent:
  assumes "dfs_inv g st stack" "colorOf st child = WHITE"
  shows "dfs_inv g (st\<lparr>parentOf := (parentOf st)(child := table)\<rparr>) stack"
proof -
  have "child \<notin> set stack" using assms inv_gray_iff [of g st stack child] by simp
  then have "chain g ((parentOf st)(child := table)) stack = chain g (parentOf st) stack"
    by (intro chain_cong) auto
  then show ?thesis using assms(1) by (simp add: dfs_inv_def black_closed_def)
qed

lemma inv_gray:
  assumes inv: "dfs_inv g st stack" and w: "colorOf st table = WHITE"
    and n: "table \<in> set (node_list g)" and ne: "table \<noteq> []"
    and par: "stack \<noteq> [] \<longrightarrow> parentOf st table = hd stack \<and> has_edge g (hd stack) table"
  shows "dfs_inv g (st\<lparr>colorOf := (colorOf st)(table := GRAY)\<rparr>) (table # stack)"
proof -
  have notin: "table \<notin> set stack" using inv w inv_gray_iff [of g st stack table] by simp
  have "chain g (parentOf st) (table # stack)"
    using inv par unfolding dfs_inv_def by (cases stack) simp_all
  moreover have "{x. ((colorOf st)(table := GRAY)) x = GRAY} = set (table # stack)"
    using inv_gray_iff [OF inv] by auto
  moreover have "black_closed g (st\<lparr>colorOf := (colorOf st)(table := GRAY)\<rparr>)"
  proof -
    have "colorOf st y = BLACK \<Longrightarrow> y \<noteq> table" for y using w by auto
    then show ?thesis using inv unfolding dfs_inv_def black_closed_def by auto
  qed
  ultimately show ?thesis
    using inv notin n ne unfolding dfs_inv_def by simp
qed

lemma inv_black:
  assumes inv: "dfs_inv g st (table # stack)"
    and kids: "\<forall>y. has_edge g table y \<longrightarrow> colorOf st y = BLACK"
  shows "dfs_inv g (st\<lparr>colorOf := (colorOf st)(table := BLACK)\<rparr>) stack"
proof -
  let ?st' = "st\<lparr>colorOf := (colorOf st)(table := BLACK)\<rparr>"
  from inv have gr: "{x. colorOf st x = GRAY} = set (table # stack)"
    and d: "distinct (table # stack)" and ch: "chain g (parentOf st) (table # stack)"
    and bc: "black_closed g st"
    unfolding dfs_inv_def by auto
  have tg: "colorOf st table = GRAY" using inv_gray_iff [OF inv, of table] by simp
  have "{x. colorOf ?st' x = GRAY} = set stack" using inv_gray_iff [OF inv] d by auto
  moreover have "chain g (parentOf ?st') stack" using chain_tl [OF ch] by simp
  moreover have "black_closed g ?st'"
    unfolding black_closed_def
  proof (intro allI impI conjI)
    fix x y assume x: "colorOf ?st' x = BLACK" and e: "has_edge g x y"
    show "colorOf ?st' y = BLACK"
    proof (cases "x = table")
      case True
      then show ?thesis using kids e by simp
    next
      case False
      then have "colorOf st x = BLACK" using x by simp
      then have "colorOf st y = BLACK" using bc e unfolding black_closed_def by blast
      then show ?thesis by simp
    qed
  next
    fix x assume x: "colorOf ?st' x = BLACK"
    show "(x, x) \<notin> (fk_edges g)\<^sup>+"
    proof (cases "x = table")
      case False
      then have "colorOf st x = BLACK" using x by simp
      then show ?thesis using bc unfolding black_closed_def by blast
    next
      case True
      show ?thesis
      proof
        assume "(x, x) \<in> (fk_edges g)\<^sup>+"
        then obtain y where xy: "(x, y) \<in> fk_edges g" and yx: "(y, x) \<in> (fk_edges g)\<^sup>*"
          by (meson tranclD)
        from xy have yb: "colorOf st y = BLACK" using kids True by (simp add: fk_edges_def)
        then have "y \<noteq> x" using tg True by auto
        then have "(y, x) \<in> (fk_edges g)\<^sup>+" using yx by (meson rtranclD)
        then have "colorOf st x = BLACK" by (rule black_reach [OF bc yb])
        then show False using tg True by simp
      qed
    qed
  qed
  ultimately show ?thesis using inv unfolding dfs_inv_def by auto
qed

lemma stack_length:
  assumes "dfs_inv g st stack"
  shows "length stack \<le> card (set (node_list g))"
proof -
  from assms have d: "distinct stack" and s: "set stack \<subseteq> set (node_list g)"
    unfolding dfs_inv_def by auto
  have "length stack = card (set stack)" using d by (simp add: distinct_card)
  also have "\<dots> \<le> card (set (node_list g))" using s by (intro card_mono) simp_all
  finally show ?thesis .
qed

lemma cycle_found:
  assumes inv: "dfs_inv g st (table # stack)" and gray: "colorOf st child = GRAY"
    and e: "has_edge g table child" and fuel: "card (set (node_list g)) \<le> w"
  shows "\<exists>cycle. cycle_of w st table child = Some cycle \<and> is_cycle g cycle"
proof -
  from e have ne: "child \<noteq> table" by (simp add: has_edge_def)
  from inv gray have "child \<in> set (table # stack)" using inv_gray_iff [OF inv, of child] by simp
  then obtain pre post where sp: "table # stack = pre @ child # post" and np: "child \<notin> set pre"
    by (meson split_list_first)
  from sp ne obtain ps where pre: "pre = table # ps" by (cases pre) auto
  from inv have ch: "chain g (parentOf st) (pre @ child # post)"
    and emp: "[] \<notin> set pre" unfolding dfs_inv_def sp by auto
  have "length pre \<le> length (table # stack)" unfolding sp by simp
  also have "\<dots> \<le> w" using stack_length [OF inv] fuel by simp
  finally have lp: "length pre \<le> w" .
  have "walk_up w (parentOf st) child (hd (pre @ [child])) [child] = Some ([child] @ pre)"
    by (rule walk_up_chain [OF ch np emp lp])
  then have c: "cycle_of w st table child = Some (rev (([child] @ pre) @ [child]))"
    by (simp add: cycle_of_def pre)
  have "chain g (parentOf st) (pre @ [child])"
    using chain_prefix [of g "parentOf st" "pre @ [child]" post] ch by simp
  then have "edge_path g (rev (pre @ [child]))" by (rule chain_edge_path_rev)
  then have "edge_path g (rev (pre @ [child]) @ [child])"
    using e by (intro edge_path_snoc) (simp_all add: pre)
  then have "is_cycle g (rev (([child] @ pre) @ [child]))"
    by (simp add: is_cycle_def pre)
  with c show ?thesis by blast
qed


subsection \<open>The search\<close>

text \<open>
  \<open>dfs_post\<close> and \<open>loop_post\<close> say what a call of \<open>dfs\<close> and a run of its loop leave behind:
  either a closed path of the graph, or the invariant again with the table black.
\<close>

definition dfs_post ::
  "Graph \<Rightarrow> dfs_state \<Rightarrow> string list \<Rightarrow> string \<Rightarrow> string list option \<times> dfs_state \<Rightarrow> bool" where
  "dfs_post g st stack table res \<longleftrightarrow>
     (case res of
        (Some cycle, st') \<Rightarrow> is_cycle g cycle
      | (None, st') \<Rightarrow> dfs_inv g st' stack \<and> colorOf st' table = BLACK \<and> frame st st')"

definition loop_post ::
  "Graph \<Rightarrow> dfs_state \<Rightarrow> string list \<Rightarrow> string \<Rightarrow> ForeignKey list \<Rightarrow>
   string list option \<times> dfs_state \<Rightarrow> bool" where
  "loop_post g st stack table fks res \<longleftrightarrow>
     (case res of
        (Some cycle, st') \<Rightarrow> is_cycle g cycle
      | (None, st') \<Rightarrow>
          dfs_inv g st' (table # stack) \<and> frame st st' \<and>
          (\<forall>fk \<in> set fks. ChildTable fk \<noteq> table \<longrightarrow> colorOf st' (ChildTable fk) = BLACK))"

lemma whites_parent [simp]: "whites g (st\<lparr>parentOf := p\<rparr>) = whites g st"
  by (simp add: whites_def)

lemma frame_set_parent:
  "colorOf st child = WHITE \<Longrightarrow> frame st (st\<lparr>parentOf := (parentOf st)(child := table)\<rparr>)"
  by (auto simp: frame_def)

lemma frame_black: "frame st st' \<Longrightarrow> colorOf st x = BLACK \<Longrightarrow> colorOf st' x = BLACK"
  by (simp add: frame_def)

lemma dfs_loop_spec:
  assumes fuel: "card (set (node_list g)) \<le> w" and emp: "[] \<notin> set (node_list g)"
    and IH: "\<And>table st stack. dfs_inv g st stack \<Longrightarrow> colorOf st table = WHITE \<Longrightarrow>
        table \<in> set (node_list g) \<Longrightarrow>
        (stack \<noteq> [] \<longrightarrow> parentOf st table = hd stack \<and> has_edge g (hd stack) table) \<Longrightarrow>
        card (whites g st) \<le> n \<Longrightarrow>
        \<exists>res. dfs w n g table st = Some res \<and> dfs_post g st stack table res"
  shows "dfs_inv g st (table # stack) \<Longrightarrow> set fks \<subseteq> set (GetChildren g table) \<Longrightarrow>
         card (whites g st) \<le> n \<Longrightarrow>
         \<exists>res. dfs_loop w n g table fks st = Some res \<and> loop_post g st stack table fks res"
proof (induction fks arbitrary: st)
  case Nil
  then show ?case by (simp add: loop_post_def)
next
  case (Cons fk fks)
  let ?child = "ChildTable fk"
  have rest: "set fks \<subseteq> set (GetChildren g table)" using Cons.prems(2) by simp
  show ?case
  proof (cases "?child = table")
    case True
    from Cons.IH [OF Cons.prems(1) rest Cons.prems(3)]
    obtain res where r: "dfs_loop w n g table fks st = Some res"
      and p: "loop_post g st stack table fks res" by blast
    have "loop_post g st stack table (fk # fks) res"
      using p True by (auto simp: loop_post_def split: prod.splits option.splits)
    then show ?thesis using r True by simp
  next
    case ne: False
    have e: "has_edge g table ?child"
      using Cons.prems(2) ne by (auto simp: has_edge_def)
    show ?thesis
    proof (cases "colorOf st ?child")
      case GRAY
      from cycle_found [OF Cons.prems(1) GRAY e fuel]
      obtain cycle where c: "cycle_of w st table ?child = Some cycle" and ic: "is_cycle g cycle"
        by blast
      have "dfs_loop w n g table (fk # fks) st = Some (Some cycle, st)"
        using ne GRAY c by simp
      moreover have "loop_post g st stack table (fk # fks) (Some cycle, st)"
        using ic by (simp add: loop_post_def)
      ultimately show ?thesis by blast
    next
      case BLACK
      from Cons.IH [OF Cons.prems(1) rest Cons.prems(3)]
      obtain res where r: "dfs_loop w n g table fks st = Some res"
        and p: "loop_post g st stack table fks res" by blast
      have "loop_post g st stack table (fk # fks) res"
        using p BLACK frame_black [of st _ ?child]
        by (auto simp: loop_post_def split: prod.splits option.splits)
      then show ?thesis using r ne BLACK by simp
    next
      case WHITE
      let ?st1 = "st\<lparr>parentOf := (parentOf st)(?child := table)\<rparr>"
      have inv1: "dfs_inv g ?st1 (table # stack)"
        by (rule inv_set_parent [OF Cons.prems(1) WHITE])
      have w1: "colorOf ?st1 ?child = WHITE" using WHITE by simp
      have n1: "?child \<in> set (node_list g)" using has_edge_nodes [OF e] by simp
      have p1: "table # stack \<noteq> [] \<longrightarrow>
                parentOf ?st1 ?child = hd (table # stack) \<and> has_edge g (hd (table # stack)) ?child"
        using e by simp
      have c1: "card (whites g ?st1) \<le> n" using Cons.prems(3) by simp
      from IH [OF inv1 w1 n1 p1 c1]
      obtain res1 where r1: "dfs w n g ?child ?st1 = Some res1"
        and post1: "dfs_post g ?st1 (table # stack) ?child res1" by blast
      obtain e1 st2 where res1: "res1 = (e1, st2)" by (cases res1)
      show ?thesis
      proof (cases e1)
        case (Some cycle)
        then have "is_cycle g cycle" using post1 res1 by (simp add: dfs_post_def)
        then have "loop_post g st stack table (fk # fks) (Some cycle, st2)"
          by (simp add: loop_post_def)
        moreover have "dfs_loop w n g table (fk # fks) st = Some (Some cycle, st2)"
          using ne WHITE r1 res1 Some by simp
        ultimately show ?thesis by blast
      next
        case None
        then have inv2: "dfs_inv g st2 (table # stack)" and b2: "colorOf st2 ?child = BLACK"
          and f12: "frame ?st1 st2"
          using post1 res1 by (simp_all add: dfs_post_def)
        have f02: "frame st st2"
          by (rule frame_trans [OF frame_set_parent [OF WHITE] f12])
        have c2: "card (whites g st2) \<le> n"
          using frame_card_whites [OF f12, of g] c1 by simp
        from Cons.IH [OF inv2 rest c2]
        obtain res3 where r3: "dfs_loop w n g table fks st2 = Some res3"
          and p3: "loop_post g st2 stack table fks res3" by blast
        have run: "dfs_loop w n g table (fk # fks) st = Some res3"
          using ne WHITE r1 res1 None r3 by simp
        obtain e3 st3 where res3: "res3 = (e3, st3)" by (cases res3)
        have "loop_post g st stack table (fk # fks) res3"
        proof (cases e3)
          case (Some cycle)
          then show ?thesis using p3 res3 by (simp add: loop_post_def)
        next
          case None
          then have inv3: "dfs_inv g st3 (table # stack)" and f23: "frame st2 st3"
            and k3: "\<forall>fk' \<in> set fks. ChildTable fk' \<noteq> table \<longrightarrow> colorOf st3 (ChildTable fk') = BLACK"
            using p3 res3 by (simp_all add: loop_post_def)
          have "frame st st3" by (rule frame_trans [OF f02 f23])
          moreover have "colorOf st3 ?child = BLACK" by (rule frame_black [OF f23 b2])
          ultimately show ?thesis using inv3 k3 None res3 by (simp add: loop_post_def)
        qed
        with run show ?thesis by blast
      qed
    qed
  qed
qed

lemma dfs_spec:
  assumes fuel: "card (set (node_list g)) \<le> w" and emp: "[] \<notin> set (node_list g)"
  shows "dfs_inv g st stack \<Longrightarrow> colorOf st table = WHITE \<Longrightarrow> table \<in> set (node_list g) \<Longrightarrow>
         (stack \<noteq> [] \<longrightarrow> parentOf st table = hd stack \<and> has_edge g (hd stack) table) \<Longrightarrow>
         card (whites g st) \<le> n \<Longrightarrow>
         \<exists>res. dfs w n g table st = Some res \<and> dfs_post g st stack table res"
proof (induction n arbitrary: st stack table)
  case 0
  have "table \<in> whites g st" using "0.prems"(2,3) by (simp add: whites_def)
  moreover have "finite (whites g st)" by (simp add: whites_def)
  ultimately have "0 < card (whites g st)" by (auto simp: card_gt_0_iff)
  then show ?case using "0.prems"(5) by simp
next
  case (Suc n)
  let ?st1 = "st\<lparr>colorOf := (colorOf st)(table := GRAY)\<rparr>"
  have tne: "table \<noteq> []" using Suc.prems(3) emp by auto
  have inv1: "dfs_inv g ?st1 (table # stack)"
    by (rule inv_gray [OF Suc.prems(1) Suc.prems(2) Suc.prems(3) tne Suc.prems(4)])
  have fin: "finite (whites g st)" by (simp add: whites_def)
  have tw: "table \<in> whites g st" using Suc.prems(2,3) by (simp add: whites_def)
  have "whites g ?st1 = whites g st - {table}" by (auto simp: whites_def)
  then have "card (whites g ?st1) = card (whites g st) - 1"
    using fin tw by simp
  then have c1: "card (whites g ?st1) \<le> n" using Suc.prems(5) by simp
  have sub: "set (GetChildren g table) \<subseteq> set (GetChildren g table)" by simp
  from dfs_loop_spec [OF fuel emp Suc.IH inv1 sub c1]
  obtain res where r: "dfs_loop w n g table (GetChildren g table) ?st1 = Some res"
    and p: "loop_post g ?st1 stack table (GetChildren g table) res"
    by blast
  obtain e1 st2 where res: "res = (e1, st2)" by (cases res)
  show ?case
  proof (cases e1)
    case (Some cycle)
    then have "is_cycle g cycle" using p res by (simp add: loop_post_def)
    then have "dfs_post g st stack table (Some cycle, st2)" by (simp add: dfs_post_def)
    moreover have "dfs w (Suc n) g table st = Some (Some cycle, st2)"
      using r res Some by simp
    ultimately show ?thesis by blast
  next
    case None
    then have inv2: "dfs_inv g st2 (table # stack)" and f12: "frame ?st1 st2"
      and kids: "\<forall>fk \<in> set (GetChildren g table). ChildTable fk \<noteq> table \<longrightarrow>
                   colorOf st2 (ChildTable fk) = BLACK"
      using p res by (simp_all add: loop_post_def)
    let ?st3 = "st2\<lparr>colorOf := (colorOf st2)(table := BLACK)\<rparr>"
    have k: "\<forall>y. has_edge g table y \<longrightarrow> colorOf st2 y = BLACK"
      using kids by (auto simp: has_edge_def)
    have inv3: "dfs_inv g ?st3 stack" by (rule inv_black [OF inv2 k])
    have f: "frame st ?st3"
      using f12 Suc.prems(2) unfolding frame_def by auto
    have "dfs w (Suc n) g table st = Some (None, ?st3)"
      using r res None by simp
    moreover have "dfs_post g st stack table (None, ?st3)"
      using inv3 f by (simp add: dfs_post_def)
    ultimately show ?thesis by blast
  qed
qed


lemma card_whites_le: "card (whites g st) \<le> card (set (node_list g))"
  by (rule card_mono) (auto simp: whites_def)

lemma dfs_all_spec:
  assumes fuel: "card (set (node_list g)) \<le> w" and emp: "[] \<notin> set (node_list g)"
  shows "dfs_inv g st [] \<Longrightarrow> set tables \<subseteq> set (node_list g) \<Longrightarrow>
         \<exists>r. dfs_all w g tables st = Some r \<and>
             (case r of
                Some cycle \<Rightarrow> is_cycle g cycle
              | None \<Rightarrow> \<exists>st'. dfs_inv g st' [] \<and> frame st st' \<and>
                                (\<forall>t \<in> set tables. colorOf st' t = BLACK))"
proof (induction tables arbitrary: st)
  case Nil
  then show ?case using frame_refl by auto
next
  case (Cons table tables)
  have rest: "set tables \<subseteq> set (node_list g)" using Cons.prems(2) by simp
  have nogray: "\<And>x. colorOf st x \<noteq> GRAY"
    using Cons.prems(1) inv_gray_iff [of g st "[]"] by simp
  show ?case
  proof (cases "colorOf st table = WHITE")
    case False
    then have b: "colorOf st table = BLACK" using nogray [of table] by (cases "colorOf st table") auto
    from Cons.IH [OF Cons.prems(1) rest]
    obtain r where run: "dfs_all w g tables st = Some r"
      and post: "case r of Some cycle \<Rightarrow> is_cycle g cycle
                 | None \<Rightarrow> \<exists>st'. dfs_inv g st' [] \<and> frame st st' \<and>
                                   (\<forall>t \<in> set tables. colorOf st' t = BLACK)"
      by blast
    have "case r of Some cycle \<Rightarrow> is_cycle g cycle
          | None \<Rightarrow> \<exists>st'. dfs_inv g st' [] \<and> frame st st' \<and>
                            (\<forall>t \<in> set (table # tables). colorOf st' t = BLACK)"
    proof (cases r)
      case None
      then obtain st' where "dfs_inv g st' []" "frame st st'"
        "\<forall>t \<in> set tables. colorOf st' t = BLACK"
        using post by auto
      moreover from this(2) b have "colorOf st' table = BLACK" by (rule frame_black)
      ultimately show ?thesis using None by auto
    next
      case (Some cycle)
      then show ?thesis using post by simp
    qed
    then show ?thesis using run False by auto
  next
    case True
    have tn: "table \<in> set (node_list g)" using Cons.prems(2) by simp
    have vac: "([]::string list) \<noteq> [] \<longrightarrow>
               parentOf st table = hd [] \<and> has_edge g (hd []) table" by simp
    have cw: "card (whites g st) \<le> w" using card_whites_le [of g st] fuel by simp
    from dfs_spec [OF fuel emp Cons.prems(1) True tn vac cw]
    obtain res where run1: "dfs w w g table st = Some res"
      and post1: "dfs_post g st [] table res" by blast
    obtain e1 st2 where res: "res = (e1, st2)" by (cases res)
    show ?thesis
    proof (cases e1)
      case (Some cycle)
      then have "is_cycle g cycle" using post1 res by (simp add: dfs_post_def)
      moreover have "dfs_all w g (table # tables) st = Some (Some cycle)"
        using True run1 res Some by simp
      ultimately show ?thesis by simp
    next
      case None
      then have inv2: "dfs_inv g st2 []" and b2: "colorOf st2 table = BLACK"
        and f: "frame st st2"
        using post1 res by (simp_all add: dfs_post_def)
      from Cons.IH [OF inv2 rest]
      obtain r where run: "dfs_all w g tables st2 = Some r"
        and post: "case r of Some cycle \<Rightarrow> is_cycle g cycle
                   | None \<Rightarrow> \<exists>st'. dfs_inv g st' [] \<and> frame st2 st' \<and>
                                     (\<forall>t \<in> set tables. colorOf st' t = BLACK)"
        by blast
      have run': "dfs_all w g (table # tables) st = Some r"
        using True run1 res None run by simp
      have "case r of Some cycle \<Rightarrow> is_cycle g cycle
            | None \<Rightarrow> \<exists>st'. dfs_inv g st' [] \<and> frame st st' \<and>
                              (\<forall>t \<in> set (table # tables). colorOf st' t = BLACK)"
      proof (cases r)
        case None
        then obtain st' where i: "dfs_inv g st' []" and f': "frame st2 st'"
          and k: "\<forall>t \<in> set tables. colorOf st' t = BLACK"
          using post by auto
        have "frame st st'" by (rule frame_trans [OF f f'])
        moreover have "colorOf st' table = BLACK" by (rule frame_black [OF f' b2])
        ultimately show ?thesis using None i k by auto
      next
        case (Some cycle)
        then show ?thesis using post by simp
      qed
      with run' show ?thesis by blast
    qed
  qed
qed

lemma dfs_inv_init: "dfs_inv g dfs_init []"
  by (simp add: dfs_inv_def dfs_init_def black_closed_def)

lemma all_black_acyclic:
  assumes inv: "dfs_inv g st []" and k: "\<forall>t \<in> set (allTables g). colorOf st t = BLACK"
  shows "\<not> has_multi_table_cycle g"
proof
  assume "has_multi_table_cycle g"
  then obtain x where c: "(x, x) \<in> (fk_edges g)\<^sup>+" by (auto simp: has_multi_table_cycle_def)
  then obtain y where "(x, y) \<in> fk_edges g" by (meson tranclD)
  then have "has_edge g x y" by (simp add: fk_edges_def)
  then have "x \<in> set (allTables g)" by (rule has_edge_key)
  then have "colorOf st x = BLACK" using k by simp
  moreover have "black_closed g st" using inv by (simp add: dfs_inv_def)
  ultimately have "(x, x) \<notin> (fk_edges g)\<^sup>+" by (simp add: black_closed_def)
  with c show False by simp
qed

text \<open>
  C6. Graph construction fails if and only if the foreign-key graph contains a
  multi-table cycle, self-references not counted: with table names that are not empty
  and fuel for every table, \<open>DetectMultiTableCycles\<close> returns, it returns an error
  exactly when some table reaches itself along the edges, and the error is
  \<open>CyclicForeignKeys\<close> of a closed path of the graph, listed in the direction of the edges
  from a table back to itself. In the witness the tables \<open>a\<close> and \<open>b\<close> that reference each
  other are rejected with the path \<open>a -> b -> a\<close>, and the table that only references
  itself is accepted.
\<close>

theorem DetectMultiTableCycles_iff_cycle:
  assumes "[] \<notin> set (node_list g)" and "card (set (node_list g)) \<le> fuel"
  shows "\<exists>r. DetectMultiTableCycles fuel g = Some r \<and>
             (r \<noteq> None \<longleftrightarrow> has_multi_table_cycle g) \<and>
             (\<forall>err. r = Some err \<longrightarrow>
                (\<exists>cycle. err = CyclicForeignKeys cycle \<and> is_cycle g cycle))"
proof -
  have sub: "set (sort (allTables g)) \<subseteq> set (node_list g)"
    using allTables_nodes [of g] by simp
  from dfs_all_spec [OF assms(2) assms(1) dfs_inv_init sub]
  obtain r where run: "dfs_all fuel g (sort (allTables g)) dfs_init = Some r"
    and post: "case r of Some cycle \<Rightarrow> is_cycle g cycle
               | None \<Rightarrow> \<exists>st'. dfs_inv g st' [] \<and> frame dfs_init st' \<and>
                                 (\<forall>t \<in> set (sort (allTables g)). colorOf st' t = BLACK)"
    by blast
  have d: "DetectMultiTableCycles fuel g = Some (map_option CyclicForeignKeys r)"
    using run by (simp add: DetectMultiTableCycles_def)
  show ?thesis
  proof (cases r)
    case None
    then obtain st' where "dfs_inv g st' []" "\<forall>t \<in> set (allTables g). colorOf st' t = BLACK"
      using post by auto
    then have "\<not> has_multi_table_cycle g" by (rule all_black_acyclic)
    then show ?thesis using d None by simp
  next
    case (Some cycle)
    then have ic: "is_cycle g cycle" using post by simp
    then have "has_multi_table_cycle g"
      using is_cycle_trancl [of g cycle] by (simp add: has_multi_table_cycle_def)
    then show ?thesis using d Some ic by simp
  qed
qed

theorem DetectMultiTableCycles_iff_cycle_witness:
  "DetectMultiTableCycles 2 two_cycle_graph = Some (Some (CyclicForeignKeys [''a'', ''b'', ''a''])) \<and>
   has_multi_table_cycle two_cycle_graph \<and>
   is_cycle two_cycle_graph [''a'', ''b'', ''a''] \<and>
   graph_error_message (CyclicForeignKeys [''a'', ''b'', ''a'']) =
     ''cyclic foreign keys detected: a -> b -> a. Use --parents or --children to avoid cycles'' \<and>
   DetectMultiTableCycles 1 self_loop_graph = Some None \<and>
   \<not> has_multi_table_cycle self_loop_graph"
proof -
  have h1: "[] \<notin> set (node_list two_cycle_graph)" by code_simp
  have h2: "card (set (node_list two_cycle_graph)) \<le> 2" by code_simp
  have r1: "DetectMultiTableCycles 2 two_cycle_graph =
            Some (Some (CyclicForeignKeys [''a'', ''b'', ''a'']))" by code_simp
  have h3: "[] \<notin> set (node_list self_loop_graph)" by code_simp
  have h4: "card (set (node_list self_loop_graph)) \<le> 1" by code_simp
  have r2: "DetectMultiTableCycles 1 self_loop_graph = Some None" by code_simp
  have m: "graph_error_message (CyclicForeignKeys [''a'', ''b'', ''a'']) =
     ''cyclic foreign keys detected: a -> b -> a. Use --parents or --children to avoid cycles''"
    by code_simp
  from DetectMultiTableCycles_iff_cycle [OF h1 h2] r1
  have a: "has_multi_table_cycle two_cycle_graph \<and> is_cycle two_cycle_graph [''a'', ''b'', ''a'']"
    by auto
  from DetectMultiTableCycles_iff_cycle [OF h3 h4] r2
  have b: "\<not> has_multi_table_cycle self_loop_graph" by auto
  show ?thesis using r1 r2 a b m by simp
qed

end
